theory Spec2Isabelle
  imports Main "HOL-Library.Multiset"
begin

section \<open>Data model of the game engine (gameEngine.js)\<close>

text \<open>
  Player identifiers, player names, role names and log lines are JavaScript strings.
  A value that may be \<open>null\<close> or \<open>undefined\<close> in the source (a target id, a viewer id,
  an absent field of the pending action) is an \<open>option\<close>.

  Two conventions of the embedding:
  \<^item> \<open>Math.random\<close> is modelled by a tape of natural numbers carried in the game state
    (\<open>random_tape\<close>); \<open>(Math.random() * n) | 0\<close> consumes one entry \<open>r\<close> and yields
    \<open>r mod n\<close>, so every index the source can produce is produced by some tape.
  \<^item> identifiers are strings and only strings, any string: \<open>server.js\<close> takes the
    identifier of a client from the \<open>join\<close> message as it comes, so it may be empty or
    the name of a property that every JavaScript object inherits. An identifier that is
    a JSON number, boolean or \<open>null\<close> is not represented.
\<close>

type_synonym player_id = string
type_synonym role_name = string

record card =
  role :: role_name
  revealed :: bool

record player =
  pid :: player_id
  name :: string
  coins :: int
  influence :: "card list"

datatype rstatus = Pending | Passed | Challenged

datatype ptype = LoseInfluenceT | TaxT | ForeignAidT | AssassinateT | StealT | ExchangeT

datatype stage = AwaitingChoice | AwaitingChallenge | AwaitingBlock | AwaitingChallengeBlock

text \<open>The continuation objects \<open>{ type, actorId?, targetId? }\<close> built by the resolver.\<close>

datatype cont =
    EndTurn
  | AssassinateOpenBlock "player_id option" "player_id option"
  | AssassinateBlockStands
  | AssassinateForceTargetLoss "player_id option" "player_id option"
  | EndTurnAfterAssassination "player_id option"
  | StealOpenBlock "player_id option" "player_id option"
  | StealApply "player_id option" "player_id option"
  | StealBlockStands
  | StealApplyAfterBlockFail "player_id option" "player_id option"
  | ExchangeStartChoice "player_id option"

text \<open>
  The pending action is one JavaScript object whose fields depend on its \<open>type\<close>; a
  field the object does not have is \<open>None\<close> (\<open>responders\<close>: the empty list).
\<close>

record pending =
  ptype :: ptype
  stage :: stage
  actorId :: "player_id option"
  targetId :: "player_id option"
  claimedRole :: "role_name option"
  blockedBy :: "player_id option"
  blockRole :: "role_name option"
  responders :: "(player_id \<times> rstatus) list"
  playerId :: "player_id option"
  reason :: "string option"
  continuation :: "cont option"
  keepCount :: "nat option"

datatype src = Hand | Drawn

record exchange_option =
  opt_id :: string
  opt_role :: role_name
  source :: src
  handIndex :: "nat option"

record secret =
  sec_keepCount :: nat
  options :: "exchange_option list"

record game =
  players :: "player list"
  deck :: "role_name list"
  log :: "string list"
  turnIndex :: nat
  pendingAction :: "pending option"
  gameOver :: bool
  winnerId :: "player_id option"
  private_exchange :: "player_id option \<rightharpoonup> secret"
  random_tape :: "nat list"

text \<open>The per-viewer projection returned by \<open>getStateFor\<close>.\<close>

record player_view =
  v_id :: player_id
  v_name :: string
  v_coins :: int
  v_alive :: bool
  v_influence :: "card list"

record view =
  v_players :: "player_view list"
  v_log :: "string list"
  v_pendingAction :: "pending option"
  v_turnPlayerId :: "player_id option"
  v_gameOver :: bool
  v_winnerId :: "player_id option"

section \<open>Deck\<close>

fun random_below :: "nat \<Rightarrow> nat list \<Rightarrow> nat \<times> nat list" where
  "random_below n [] = (0, [])"
| "random_below n (r # rs) = (r mod n, rs)"

text \<open>\<open>for (let i = arr.length - 1; i > 0; i--)\<close>: the first argument is \<open>i\<close>.\<close>

fun shuffle_loop :: "nat \<Rightarrow> 'a list \<Rightarrow> nat list \<Rightarrow> 'a list \<times> nat list" where
  "shuffle_loop 0 arr rs = (arr, rs)"
| "shuffle_loop (Suc k) arr rs =
     (case random_below (Suc k + 1) rs of
        (j, rs') \<Rightarrow> shuffle_loop k (arr[Suc k := arr ! j, j := arr ! Suc k]) rs')"

definition shuffle :: "'a list \<Rightarrow> nat list \<Rightarrow> 'a list \<times> nat list" where
  "shuffle arr rs = shuffle_loop (length arr - 1) arr rs"

definition roles :: "role_name list" where
  "roles = [''Duke'', ''Assassin'', ''Captain'', ''Ambassador'', ''Contessa'']"

definition makeDeck :: "nat list \<Rightarrow> role_name list \<times> nat list" where
  "makeDeck rs = shuffle (concat (map (replicate 3) roles)) rs"

text \<open>\<open>pop\<close> takes the last element of the array; \<open>unshift\<close> adds at the front.\<close>

definition draw :: "game \<Rightarrow> role_name \<times> game" where
  "draw g =
     (let g1 = (if deck g = []
                then (case makeDeck (random_tape g) of
                        (d, rs) \<Rightarrow> g\<lparr>deck := d, random_tape := rs\<rparr>)
                else g)
      in (last (deck g1), g1\<lparr>deck := butlast (deck g1)\<rparr>))"

definition returnToDeck :: "role_name list \<Rightarrow> game \<Rightarrow> game" where
  "returnToDeck rls g =
     (case shuffle (rev rls @ deck g) (random_tape g) of
        (d, rs) \<Rightarrow> g\<lparr>deck := d, random_tape := rs\<rparr>)"

section \<open>Players\<close>

definition getPlayer :: "game \<Rightarrow> player_id option \<Rightarrow> player option" where
  "getPlayer g i = find (\<lambda>p. Some (pid p) = i) (players g)"

text \<open>
  The source mutates the object that \<open>getPlayer\<close> returned; in the model this is an
  update of the first player of the list that has the identifier.
\<close>

fun map_first :: "('a \<Rightarrow> bool) \<Rightarrow> ('a \<Rightarrow> 'a) \<Rightarrow> 'a list \<Rightarrow> 'a list" where
  "map_first P f [] = []"
| "map_first P f (x # xs) = (if P x then f x # xs else x # map_first P f xs)"

definition update_player :: "player_id option \<Rightarrow> (player \<Rightarrow> player) \<Rightarrow> game \<Rightarrow> game" where
  "update_player i f g = g\<lparr>players := map_first (\<lambda>p. Some (pid p) = i) f (players g)\<rparr>"

definition push_log :: "string \<Rightarrow> game \<Rightarrow> game" where
  "push_log m g = g\<lparr>log := log g @ [m]\<rparr>"

definition unrevealed :: "card \<Rightarrow> bool" where
  "unrevealed c = (\<not> revealed c)"

definition isAlive :: "game \<Rightarrow> player_id option \<Rightarrow> bool" where
  "isAlive g i =
     (case getPlayer g i of None \<Rightarrow> False | Some p \<Rightarrow> list_ex unrevealed (influence p))"

definition alivePlayers :: "game \<Rightarrow> player list" where
  "alivePlayers g = filter (\<lambda>p. isAlive g (Some (pid p))) (players g)"

text \<open>
  \<open>currentPlayer\<close> advances \<open>turnIndex\<close> past eliminated players, so it returns the
  game as well. The first argument of the loop is the number of iterations left.
\<close>

fun currentPlayer_loop :: "nat \<Rightarrow> game \<Rightarrow> player option \<times> game" where
  "currentPlayer_loop 0 g =
     (case players g of [] \<Rightarrow> (None, g) | p0 # _ \<Rightarrow> (getPlayer g (Some (pid p0)), g))"
| "currentPlayer_loop (Suc k) g =
     (let p = players g ! (turnIndex g mod length (players g))
      in if isAlive g (Some (pid p)) then (Some p, g)
         else currentPlayer_loop k
                (g\<lparr>turnIndex := (turnIndex g + 1) mod length (players g)\<rparr>))"

definition currentPlayer :: "game \<Rightarrow> player option \<times> game" where
  "currentPlayer g =
     (if gameOver g then (None, g)
      else if alivePlayers g = [] then (None, g)
      else currentPlayer_loop (length (players g)) g)"

definition checkWin :: "game \<Rightarrow> game" where
  "checkWin g =
     (if gameOver g then g
      else (case alivePlayers g of
              [a] \<Rightarrow> push_log (name a @ '' wins!'')
                       (g\<lparr>gameOver := True, winnerId := Some (pid a)\<rparr>)
            | _ \<Rightarrow> g))"

fun nextTurn_loop :: "nat \<Rightarrow> game \<Rightarrow> game" where
  "nextTurn_loop 0 g = g"
| "nextTurn_loop (Suc k) g =
     (let g' = g\<lparr>turnIndex := (turnIndex g + 1) mod length (players g)\<rparr>;
          p = players g' ! turnIndex g'
      in if isAlive g' (Some (pid p)) then g' else nextTurn_loop k g')"

definition announce_turn :: "game \<Rightarrow> game" where
  "announce_turn g =
     (case currentPlayer g of
        (None, g') \<Rightarrow> g'
      | (Some cp, g') \<Rightarrow> push_log (''It is now '' @ name cp @ [CHR 0x27] @ ''s turn.'') g')"

definition nextTurn :: "game \<Rightarrow> game" where
  "nextTurn g =
     (let g1 = checkWin g
      in if gameOver g1 then g1
         else announce_turn (nextTurn_loop (length (players g1)) g1))"

definition playerHasRole :: "game \<Rightarrow> player_id option \<Rightarrow> role_name \<Rightarrow> bool" where
  "playerHasRole g i r =
     (case getPlayer g i of
        None \<Rightarrow> False
      | Some p \<Rightarrow> list_ex (\<lambda>c. \<not> revealed c \<and> role c = r) (influence p))"

fun findIndex :: "('a \<Rightarrow> bool) \<Rightarrow> 'a list \<Rightarrow> nat option" where
  "findIndex P [] = None"
| "findIndex P (x # xs) =
     (if P x then Some 0 else map_option Suc (findIndex P xs))"

definition set_card :: "player_id option \<Rightarrow> nat \<Rightarrow> card \<Rightarrow> game \<Rightarrow> game" where
  "set_card i idx c g = update_player i (\<lambda>p. p\<lparr>influence := (influence p)[idx := c]\<rparr>) g"

definition revealAndRedraw :: "game \<Rightarrow> player_id option \<Rightarrow> role_name \<Rightarrow> bool \<times> game" where
  "revealAndRedraw g i r =
     (case getPlayer g i of
        None \<Rightarrow> (False, g)
      | Some p \<Rightarrow>
          (case findIndex (\<lambda>c. \<not> revealed c \<and> role c = r) (influence p) of
             None \<Rightarrow> (False, g)
           | Some idx \<Rightarrow>
               (let g1 = set_card i idx ((influence p ! idx)\<lparr>revealed := True\<rparr>) g;
                    g2 = push_log (name p @ '' reveals '' @ r @ ''.'') g1;
                    g3 = returnToDeck [r] g2
                in case draw g3 of
                     (d, g4) \<Rightarrow>
                       (True,
                        push_log (name p @ '' draws a replacement influence.'')
                          (set_card i idx \<lparr>role = d, revealed = False\<rparr> g4)))))"

text \<open>
  \<open>cardIndex\<close> comes from the client; a value that is not a slot number (absent, negative,
  not a number) equals no index and is \<open>None\<close>.
\<close>

definition loseInfluence :: "game \<Rightarrow> player_id option \<Rightarrow> nat option \<Rightarrow> bool \<times> game" where
  "loseInfluence g i cardIndex =
     (case getPlayer g i of
        None \<Rightarrow> (False, g)
      | Some p \<Rightarrow>
          (let aliveCards = filter (\<lambda>(c, k). \<not> revealed c)
                              (zip (influence p) [0 ..< length (influence p)])
           in case find (\<lambda>(c, k). Some k = cardIndex) aliveCards of
                None \<Rightarrow> (False, g)
              | Some (c, k) \<Rightarrow>
                  (let g1 = set_card i k (c\<lparr>revealed := True\<rparr>) g;
                       g2 = push_log (name p @ '' loses influence ('' @ role c @ '' revealed).'') g1
                   in (True, checkWin g2))))"

definition view_card :: "player_id option \<Rightarrow> player \<Rightarrow> card \<Rightarrow> card" where
  "view_card viewerId p c =
     (if revealed c then \<lparr>role = role c, revealed = True\<rparr>
      else if Some (pid p) = viewerId then \<lparr>role = role c, revealed = False\<rparr>
      else \<lparr>role = ''?'', revealed = False\<rparr>)"

definition view_player :: "game \<Rightarrow> player_id option \<Rightarrow> player \<Rightarrow> player_view" where
  "view_player g viewerId p =
     \<lparr>v_id = pid p, v_name = name p, v_coins = coins p,
      v_alive = isAlive g (Some (pid p)),
      v_influence = map (view_card viewerId p) (influence p)\<rparr>"

definition getStateFor :: "game \<Rightarrow> player_id option \<Rightarrow> view \<times> game" where
  "getStateFor g viewerId =
     (case currentPlayer g of
        (cp, g') \<Rightarrow>
          (\<lparr>v_players = map (view_player g viewerId) (players g),
            v_log = drop (length (log g) - 80) (log g),
            v_pendingAction = pendingAction g,
            v_turnPlayerId = map_option pid cp,
            v_gameOver = gameOver g,
            v_winnerId = winnerId g\<rparr>, g'))"

definition getPublicState :: "game \<Rightarrow> view \<times> game" where
  "getPublicState g = getStateFor g None"

section \<open>The engine constructor\<close>

definition deal_two :: "nat \<Rightarrow> game \<Rightarrow> game" where
  "deal_two k g =
     (case draw g of
        (r1, g1) \<Rightarrow>
          (let g2 = g1\<lparr>players := (players g1)[k := (players g1 ! k)
                       \<lparr>influence := influence (players g1 ! k) @ [\<lparr>role = r1, revealed = False\<rparr>]\<rparr>]\<rparr>
           in case draw g2 of
                (r2, g3) \<Rightarrow>
                  g3\<lparr>players := (players g3)[k := (players g3 ! k)
                       \<lparr>influence := influence (players g3 ! k) @ [\<lparr>role = r2, revealed = False\<rparr>]\<rparr>]\<rparr>))"

definition GameEngine :: "(player_id \<times> string) list \<Rightarrow> nat list \<Rightarrow> game" where
  "GameEngine ps tape =
     (case makeDeck tape of
        (d, rs) \<Rightarrow>
          (let g0 = \<lparr>players = map (\<lambda>(i, n). \<lparr>pid = i, name = n, coins = 2, influence = []\<rparr>) ps,
                     deck = d, log = [], turnIndex = 0, pendingAction = None,
                     gameOver = False, winnerId = None, private_exchange = Map.empty,
                     random_tape = rs\<rparr>;
               g1 = fold deal_two [0 ..< length ps] g0;
               g2 = push_log ''Game started. Each player has 2 influence and 2 coins.'' g1
           in announce_turn g2))"

section \<open>The action resolver (actionResolver.js)\<close>

datatype error = TypeError

record private_msg =
  to :: "player_id option"
  msg_keepCount :: nat
  msg_options :: "(string \<times> role_name) list"

record reply =
  state :: view
  privates :: "private_msg list"

text \<open>\<open>{ state: game.getPublicState(), privates }\<close>, with the game as \<open>getPublicState\<close> leaves it.\<close>

definition result :: "game \<Rightarrow> private_msg list \<Rightarrow> reply \<times> game" where
  "result g ps = (case getPublicState g of (v, g') \<Rightarrow> (\<lparr>state = v, privates = ps\<rparr>, g'))"

subsection \<open>The responders object\<close>

text \<open>
  \<open>responders\<close> is a plain JavaScript object, created by \<open>{}\<close> or by an object literal.
  It is modelled by the list of its own entries in the order of \<open>Object.entries\<close> and
  \<open>Object.values\<close>: first the keys that are array indices, in ascending numeric order,
  then the other keys in the order of their creation.

  An array index is the decimal numeral, without a leading zero, of a number below
  \<open>2^32 - 1\<close>.
\<close>

definition is_digit :: "char \<Rightarrow> bool" where
  "is_digit c = (48 \<le> (of_char c :: int) \<and> (of_char c :: int) \<le> 57)"

definition read_int :: "string \<Rightarrow> int" where
  "read_int s = foldl (\<lambda>a c. 10 * a + ((of_char c :: int) - 48)) 0 s"

definition array_index :: "string \<Rightarrow> int option" where
  "array_index s =
     (if s \<noteq> [] \<and> list_all is_digit s \<and> (hd s \<noteq> CHR ''0'' \<or> s = ''0'')
         \<and> read_int s < 4294967295
      then Some (read_int s) else None)"

text \<open>Whether a key that is created now is listed before the existing key \<open>e\<close>.\<close>

definition goes_before :: "string \<Rightarrow> string \<Rightarrow> bool" where
  "goes_before k e =
     (case array_index k of
        None \<Rightarrow> False
      | Some n \<Rightarrow> (case array_index e of None \<Rightarrow> True | Some m \<Rightarrow> n < m))"

fun update_entry :: "string \<Rightarrow> 'v \<Rightarrow> (string \<times> 'v) list \<Rightarrow> (string \<times> 'v) list" where
  "update_entry k v [] = []"
| "update_entry k v (e # es) = (if fst e = k then (k, v) # es else e # update_entry k v es)"

fun insert_entry :: "string \<Rightarrow> 'v \<Rightarrow> (string \<times> 'v) list \<Rightarrow> (string \<times> 'v) list" where
  "insert_entry k v [] = [(k, v)]"
| "insert_entry k v (e # es) =
     (if goes_before k (fst e) then (k, v) # e # es else e # insert_entry k v es)"

text \<open>
  \<open>obj[k] = v\<close>. An own property is overwritten in place. Otherwise the property is
  created, except for the key \<open>__proto__\<close>: that assignment reaches the setter inherited
  from \<open>Object.prototype\<close>, which ignores a string and creates nothing.
\<close>

definition assign :: "string \<Rightarrow> 'v \<Rightarrow> (string \<times> 'v) list \<Rightarrow> (string \<times> 'v) list" where
  "assign k v rs =
     (if k \<in> fst ` set rs then update_entry k v rs
      else if k = ''__proto__'' then rs
      else insert_entry k v rs)"

text \<open>
  \<open>k in obj\<close> is true of the own keys and of the names every object inherits from
  \<open>Object.prototype\<close>.
\<close>

definition object_prototype_names :: "string list" where
  "object_prototype_names =
     [''constructor'', ''__defineGetter__'', ''__defineSetter__'', ''hasOwnProperty'',
      ''__lookupGetter__'', ''__lookupSetter__'', ''isPrototypeOf'', ''propertyIsEnumerable'',
      ''toString'', ''valueOf'', ''__proto__'', ''toLocaleString'']"

definition has_property :: "string \<Rightarrow> (string \<times> 'v) list \<Rightarrow> bool" where
  "has_property k rs = (k \<in> fst ` set rs \<or> k \<in> set object_prototype_names)"

subsection \<open>Helpers of the resolver\<close>

fun initResponders_loop ::
  "game \<Rightarrow> player_id option \<Rightarrow> player list \<Rightarrow> (player_id \<times> rstatus) list \<Rightarrow> (player_id \<times> rstatus) list" where
  "initResponders_loop g excludeId [] rs = rs"
| "initResponders_loop g excludeId (p # ps) rs =
     (if Some (pid p) = excludeId then initResponders_loop g excludeId ps rs
      else if \<not> isAlive g (Some (pid p)) then initResponders_loop g excludeId ps rs
      else initResponders_loop g excludeId ps (assign (pid p) Pending rs))"

definition initResponders :: "game \<Rightarrow> player_id option \<Rightarrow> (player_id \<times> rstatus) list" where
  "initResponders g excludeId = initResponders_loop g excludeId (players g) []"

definition everyonePassed :: "(player_id \<times> rstatus) list \<Rightarrow> bool" where
  "everyonePassed rs = list_all (\<lambda>e. snd e = Passed) rs"

definition firstChallenger :: "(player_id \<times> rstatus) list \<Rightarrow> player_id option" where
  "firstChallenger rs = map_option fst (find (\<lambda>e. snd e = Challenged) rs)"

text \<open>\<open>if (challengerId)\<close>: \<open>null\<close> and the empty string are falsy.\<close>

definition truthy :: "player_id option \<Rightarrow> bool" where
  "truthy x = (case x of None \<Rightarrow> False | Some s \<Rightarrow> s \<noteq> [])"

definition finishTurn :: "game \<Rightarrow> reply \<times> game" where
  "finishTurn g = result (nextTurn (g\<lparr>pendingAction := None\<rparr>)) []"

definition pending_obj :: "ptype \<Rightarrow> stage \<Rightarrow> pending" where
  "pending_obj t s =
     \<lparr>ptype = t, stage = s, actorId = None, targetId = None, claimedRole = None,
      blockedBy = None, blockRole = None, responders = [], playerId = None,
      reason = None, continuation = None, keepCount = None\<rparr>"

definition beginLoseInfluence :: "game \<Rightarrow> player_id option \<Rightarrow> string \<Rightarrow> cont \<Rightarrow> game" where
  "beginLoseInfluence g p r c =
     g\<lparr>pendingAction := Some ((pending_obj LoseInfluenceT AwaitingChoice)
          \<lparr>playerId := p, reason := Some r, continuation := Some c\<rparr>)\<rparr>"

fun digit_char :: "nat \<Rightarrow> char" where
  "digit_char n = char_of (48 + n)"

fun show_nat :: "nat \<Rightarrow> string" where
  "show_nat n = (if n < 10 then [digit_char n] else show_nat (n div 10) @ [digit_char (n mod 10)])"

definition show_int :: "int \<Rightarrow> string" where
  "show_int i = (if i < 0 then ''-'' @ show_nat (nat (- i)) else show_nat (nat i))"

definition applySteal :: "game \<Rightarrow> player_id option \<Rightarrow> player_id option \<Rightarrow> game" where
  "applySteal g a t =
     (case getPlayer g a of
        None \<Rightarrow> g
      | Some actor \<Rightarrow>
          (case getPlayer g t of
             None \<Rightarrow> g
           | Some target \<Rightarrow>
               (let amt = min 2 (coins target);
                    g1 = update_player t (\<lambda>p. p\<lparr>coins := coins p - amt\<rparr>) g;
                    g2 = update_player a (\<lambda>p. p\<lparr>coins := coins p + amt\<rparr>) g1
                in push_log (name actor @ '' steals '' @ show_int amt @ '' coin(s) from ''
                             @ name target @ ''.'') g2)))"

definition unrevealed_slots :: "card list \<Rightarrow> nat list" where
  "unrevealed_slots cs = filter (\<lambda>i. \<not> revealed (cs ! i)) [0 ..< length cs]"

definition startExchangeChoice :: "game \<Rightarrow> player_id option \<Rightarrow> reply \<times> game" where
  "startExchangeChoice g a =
     (case getPlayer g a of
        None \<Rightarrow> result g []
      | Some actor \<Rightarrow>
          (let handIdx = unrevealed_slots (influence actor);
               kc = length handIdx
           in if kc = 0 then finishTurn g
              else
                (let hand_opts = map (\<lambda>(sq, i). \<lparr>opt_id = ''h'' @ show_nat sq,
                                                  opt_role = role (influence actor ! i),
                                                  source = Hand, handIndex = Some i\<rparr>)
                                   (zip [0 ..< kc] handIdx)
                 in case draw g of
                      (d1, g1) \<Rightarrow>
                        (case draw g1 of
                           (d2, g2) \<Rightarrow>
                             (let opts = hand_opts @
                                    [\<lparr>opt_id = ''d'' @ show_nat kc, opt_role = d1,
                                      source = Drawn, handIndex = None\<rparr>,
                                     \<lparr>opt_id = ''d'' @ show_nat (kc + 1), opt_role = d2,
                                      source = Drawn, handIndex = None\<rparr>];
                                  g3 = g2\<lparr>private_exchange := (private_exchange g2)
                                            (a \<mapsto> \<lparr>sec_keepCount = kc, options = opts\<rparr>)\<rparr>;
                                  g4 = g3\<lparr>pendingAction := Some ((pending_obj ExchangeT AwaitingChoice)
                                            \<lparr>actorId := a, keepCount := Some kc\<rparr>)\<rparr>
                              in result g4
                                   [\<lparr>to = a, msg_keepCount = kc,
                                     msg_options = map (\<lambda>e. (opt_id e, opt_role e)) opts\<rparr>])))))"

text \<open>\<open>{ [id]: "pending" }\<close>: an absent id is the property key \<open>undefined\<close>.\<close>

definition prop_key :: "player_id option \<Rightarrow> player_id" where
  "prop_key x = (case x of None \<Rightarrow> ''undefined'' | Some k \<Rightarrow> k)"

definition continueAfterLoseInfluence :: "game \<Rightarrow> cont option \<Rightarrow> reply \<times> game" where
  "continueAfterLoseInfluence g c =
     (case c of
        None \<Rightarrow> finishTurn g
      | Some EndTurn \<Rightarrow> finishTurn g
      | Some (AssassinateOpenBlock a t) \<Rightarrow>
          result (g\<lparr>pendingAction := Some ((pending_obj AssassinateT AwaitingBlock)
                     \<lparr>actorId := a, targetId := t, claimedRole := Some ''Assassin'',
                      blockedBy := None, responders := [(prop_key t, Pending)]\<rparr>)\<rparr>) []
      | Some AssassinateBlockStands \<Rightarrow>
          finishTurn (push_log ''Assassination is blocked.'' g)
      | Some (AssassinateForceTargetLoss a t) \<Rightarrow>
          result (beginLoseInfluence g t ''assassinated'' (EndTurnAfterAssassination t)) []
      | Some (EndTurnAfterAssassination t) \<Rightarrow>
          (case getPlayer g t of
             None \<Rightarrow> finishTurn g
           | Some target \<Rightarrow> finishTurn (push_log (name target @ '' is assassinated.'') g))
      | Some (StealOpenBlock a t) \<Rightarrow>
          result (g\<lparr>pendingAction := Some ((pending_obj StealT AwaitingBlock)
                     \<lparr>actorId := a, targetId := t, claimedRole := Some ''Captain'',
                      blockedBy := None, responders := [(prop_key t, Pending)]\<rparr>)\<rparr>) []
      | Some (StealApply a t) \<Rightarrow> finishTurn (applySteal g a t)
      | Some StealBlockStands \<Rightarrow> finishTurn (push_log ''Steal is blocked.'' g)
      | Some (StealApplyAfterBlockFail a t) \<Rightarrow> finishTurn (applySteal g a t)
      | Some (ExchangeStartChoice a) \<Rightarrow> startExchangeChoice g a)"

subsection \<open>resolveAction\<close>

definition resolve_coup :: "game \<Rightarrow> player \<Rightarrow> player_id option \<Rightarrow> reply \<times> game" where
  "resolve_coup g actor tid =
     (case getPlayer g tid of
        None \<Rightarrow> result (push_log ''Invalid Coup target.'' g) []
      | Some target \<Rightarrow>
          if \<not> isAlive g (Some (pid target))
          then result (push_log ''Invalid Coup target.'' g) []
          else if coins actor < 7
          then result (push_log (name actor @ '' cannot Coup (needs 7 coins).'') g) []
          else
            (let g1 = update_player (Some (pid actor)) (\<lambda>p. p\<lparr>coins := coins p - 7\<rparr>) g;
                 g2 = push_log (name actor @ '' launches a Coup on '' @ name target
                                @ '' (7 coins).'') g1
             in result (beginLoseInfluence g2 (Some (pid target)) ''coup'' EndTurn) []))"

definition resolve_assassinate :: "game \<Rightarrow> player \<Rightarrow> player_id option \<Rightarrow> reply \<times> game" where
  "resolve_assassinate g actor tid =
     (case getPlayer g tid of
        None \<Rightarrow> result (push_log ''Invalid Assassination target.'' g) []
      | Some target \<Rightarrow>
          if \<not> isAlive g (Some (pid target)) \<or> pid target = pid actor
          then result (push_log ''Invalid Assassination target.'' g) []
          else if coins actor < 3
          then result (push_log (name actor @ '' cannot Assassinate (needs 3 coins).'') g) []
          else
            (let g1 = update_player (Some (pid actor)) (\<lambda>p. p\<lparr>coins := coins p - 3\<rparr>) g;
                 g2 = push_log (name actor @ '' claims Assassin to assassinate '' @ name target
                                @ '' (3 coins).'') g1
             in result (g2\<lparr>pendingAction := Some ((pending_obj AssassinateT AwaitingChallenge)
                          \<lparr>actorId := Some (pid actor), targetId := Some (pid target),
                           claimedRole := Some ''Assassin'', blockedBy := None,
                           responders := initResponders g2 (Some (pid actor))\<rparr>)\<rparr>) []))"

definition resolve_steal :: "game \<Rightarrow> player \<Rightarrow> player_id option \<Rightarrow> reply \<times> game" where
  "resolve_steal g actor tid =
     (case getPlayer g tid of
        None \<Rightarrow> result (push_log ''Invalid Steal target.'' g) []
      | Some target \<Rightarrow>
          if \<not> isAlive g (Some (pid target)) \<or> pid target = pid actor
          then result (push_log ''Invalid Steal target.'' g) []
          else
            (let g1 = push_log (name actor @ '' claims Captain to steal from '' @ name target
                                @ ''.'') g
             in result (g1\<lparr>pendingAction := Some ((pending_obj StealT AwaitingChallenge)
                          \<lparr>actorId := Some (pid actor), targetId := Some (pid target),
                           claimedRole := Some ''Captain'', blockedBy := None, blockRole := None,
                           responders := initResponders g1 (Some (pid actor))\<rparr>)\<rparr>) []))"

text \<open>
  \<open>actorId\<close> is the identifier of the sending client, \<open>targetId\<close> may be \<open>null\<close>.
  The \<open>switch\<close> on the action type is the chain of comparisons below, in its order.
\<close>

definition resolveAction :: "game \<Rightarrow> player_id \<Rightarrow> string \<Rightarrow> player_id option \<Rightarrow> reply \<times> game" where
  "resolveAction g aid actionType tid =
     (case getPlayer g (Some aid) of
        None \<Rightarrow> result g []
      | Some actor \<Rightarrow>
          if actionType \<noteq> ''coup'' \<and> coins actor \<ge> 10
          then result (push_log (name actor @ '' has 10+ coins and must Coup.'') g) []
          else if actionType = ''income'' then
            finishTurn (push_log (name actor @ '' takes Income (+1).'')
                          (update_player (Some aid) (\<lambda>p. p\<lparr>coins := coins p + 1\<rparr>) g))
          else if actionType = ''coup'' then resolve_coup g actor tid
          else if actionType = ''foreign_aid'' then
            (let g1 = update_player (Some aid) (\<lambda>p. p\<lparr>coins := coins p + 2\<rparr>) g;
                 g2 = push_log (name actor @ '' attempts Foreign Aid (+2).'') g1
             in result (g2\<lparr>pendingAction := Some ((pending_obj ForeignAidT AwaitingBlock)
                          \<lparr>actorId := Some aid, responders := initResponders g2 (Some aid),
                           blockedBy := None\<rparr>)\<rparr>) [])
          else if actionType = ''tax'' then
            (let g1 = push_log (name actor @ '' claims Duke for Tax (+3).'') g
             in result (g1\<lparr>pendingAction := Some ((pending_obj TaxT AwaitingChallenge)
                          \<lparr>actorId := Some aid, claimedRole := Some ''Duke'',
                           responders := initResponders g1 (Some aid)\<rparr>)\<rparr>) [])
          else if actionType = ''assassinate'' then resolve_assassinate g actor tid
          else if actionType = ''steal'' then resolve_steal g actor tid
          else if actionType = ''exchange'' then
            (let g1 = push_log (name actor @ '' claims Ambassador to Exchange.'') g
             in result (g1\<lparr>pendingAction := Some ((pending_obj ExchangeT AwaitingChallenge)
                          \<lparr>actorId := Some aid, claimedRole := Some ''Ambassador'',
                           responders := initResponders g1 (Some aid)\<rparr>)\<rparr>) [])
          else result (push_log (''Unknown action: '' @ actionType) g) [])"

subsection \<open>handleResponse\<close>

record payload =
  p_role :: "string option"
  p_cardIndex :: "nat option"
  p_keep :: "string list option"

text \<open>The dash of the log lines \<open>challenges - FAILED.\<close>, as its three UTF-8 bytes.\<close>

definition dash :: string where
  "dash = [CHR 0xE2, CHR 0x80, CHR 0x94]"

text \<open>
  \<open>if (responseType === "pass") pending.responders[playerId] = "passed"; else if
  (responseType === "challenge") pending.responders[playerId] = "challenged"; else return\<close>:
  the mark to record, or \<open>None\<close> for the early return.
\<close>

definition vote :: "string \<Rightarrow> rstatus option" where
  "vote responseType =
     (if responseType = ''pass'' then Some Passed
      else if responseType = ''challenge'' then Some Challenged
      else None)"

text \<open>The mutation of \<open>pending.responders\<close> is a mutation of \<open>game.pendingAction\<close>.\<close>

definition mark :: "game \<Rightarrow> pending \<Rightarrow> player_id \<Rightarrow> rstatus \<Rightarrow> game" where
  "mark g pa k v = g\<lparr>pendingAction := Some (pa\<lparr>responders := assign k v (responders pa)\<rparr>)\<rparr>"

definition handleLoseInfluence ::
  "game \<Rightarrow> pending \<Rightarrow> player_id \<Rightarrow> string \<Rightarrow> payload \<Rightarrow> error + reply \<times> game" where
  "handleLoseInfluence g pa k responseType pl =
     (if Some k \<noteq> playerId pa then Inr (result g [])
      else if responseType \<noteq> ''loseInfluence'' then Inr (result g [])
      else (case loseInfluence g (Some k) (p_cardIndex pl) of
              (ok, g1) \<Rightarrow>
                if \<not> ok then Inr (result g1 [])
                else Inr (continueAfterLoseInfluence (g1\<lparr>pendingAction := None\<rparr>)
                            (continuation pa))))"

definition handleTax ::
  "game \<Rightarrow> pending \<Rightarrow> player_id \<Rightarrow> string \<Rightarrow> error + reply \<times> game" where
  "handleTax g pa k responseType =
     (if \<not> has_property k (responders pa) then Inr (result g [])
      else (case vote responseType of
              None \<Rightarrow> Inr (result g [])
            | Some v \<Rightarrow>
                (let g1 = mark g pa k v;
                     rs = assign k v (responders pa);
                     challengerId = firstChallenger rs
                 in if truthy challengerId then
                      (let actorHas = playerHasRole g1 (actorId pa) ''Duke''
                       in case getPlayer g1 challengerId of
                            None \<Rightarrow> Inl TypeError
                          | Some challenger \<Rightarrow>
                              if actorHas then
                                (let g2 = push_log (name challenger @ '' challenges '' @ dash
                                                    @ '' FAILED.'') g1;
                                     g3 = snd (revealAndRedraw g2 (actorId pa) ''Duke'')
                                 in case getPlayer g3 (actorId pa) of
                                      None \<Rightarrow> Inl TypeError
                                    | Some actor \<Rightarrow>
                                        (let g4 = update_player (actorId pa)
                                                    (\<lambda>p. p\<lparr>coins := coins p + 3\<rparr>) g3;
                                             g5 = push_log (name actor @ '' takes Tax (+3).'') g4
                                         in Inr (result (beginLoseInfluence g5 challengerId
                                                    ''failed_challenge'' EndTurn) [])))
                              else
                                (let g2 = push_log (name challenger @ '' challenges '' @ dash
                                                    @ '' SUCCESS.'') g1;
                                     g3 = push_log ''Tax fails.'' g2
                                 in Inr (result (beginLoseInfluence g3 (actorId pa)
                                            ''lost_challenge'' EndTurn) [])))
                    else if everyonePassed rs then
                      (case getPlayer g1 (actorId pa) of
                         None \<Rightarrow> Inl TypeError
                       | Some actor \<Rightarrow>
                           Inr (finishTurn
                                  (push_log (name actor @ '' takes Tax (+3).'')
                                     (update_player (actorId pa)
                                        (\<lambda>p. p\<lparr>coins := coins p + 3\<rparr>) g1))))
                    else Inr (result g1 []))))"

definition handleForeignAidBlock ::
  "game \<Rightarrow> pending \<Rightarrow> player_id \<Rightarrow> string \<Rightarrow> payload \<Rightarrow> error + reply \<times> game" where
  "handleForeignAidBlock g pa k responseType pl =
     (if \<not> has_property k (responders pa) then Inr (result g [])
      else if responseType = ''pass'' then
        (let g1 = mark g pa k Passed
         in if everyonePassed (assign k Passed (responders pa))
            then Inr (finishTurn (push_log ''Foreign Aid succeeds.'' g1))
            else Inr (result g1 []))
      else if responseType = ''block'' \<and> p_role pl = Some ''Duke'' then
        (let g1 = g\<lparr>pendingAction := Some (pa\<lparr>blockedBy := Some k,
                        stage := AwaitingChallengeBlock,
                        responders := initResponders g (Some k)\<rparr>)\<rparr>
         in case getPlayer g1 (Some k) of
              None \<Rightarrow> Inl TypeError
            | Some blocker \<Rightarrow>
                Inr (result (push_log (name blocker @ '' blocks Foreign Aid with Duke.'') g1) []))
      else Inr (result g []))"

definition handleForeignAidChallengeBlock ::
  "game \<Rightarrow> pending \<Rightarrow> player_id \<Rightarrow> string \<Rightarrow> error + reply \<times> game" where
  "handleForeignAidChallengeBlock g pa k responseType =
     (if \<not> has_property k (responders pa) then Inr (result g [])
      else (case vote responseType of
              None \<Rightarrow> Inr (result g [])
            | Some v \<Rightarrow>
                (let g1 = mark g pa k v;
                     rs = assign k v (responders pa);
                     challengerId = firstChallenger rs
                 in if truthy challengerId then
                      (let blockerId = blockedBy pa;
                           blockerHas = playerHasRole g1 blockerId ''Duke''
                       in case getPlayer g1 challengerId of
                            None \<Rightarrow> Inl TypeError
                          | Some challenger \<Rightarrow>
                              if blockerHas then
                                (let g2 = push_log (name challenger @ '' challenges block '' @ dash
                                                    @ '' FAILED.'') g1;
                                     g3 = snd (revealAndRedraw g2 blockerId ''Duke'')
                                 in case getPlayer g3 (actorId pa) of
                                      None \<Rightarrow> Inl TypeError
                                    | Some actor \<Rightarrow>
                                        (let g4 = update_player (actorId pa)
                                                    (\<lambda>p. p\<lparr>coins := coins p - 2\<rparr>) g3;
                                             g5 = push_log ''Foreign Aid is blocked.'' g4
                                         in Inr (result (beginLoseInfluence g5 challengerId
                                                    ''failed_challenge'' EndTurn) [])))
                              else
                                (let g2 = push_log (name challenger @ '' challenges block '' @ dash
                                                    @ '' SUCCESS.'') g1;
                                     g3 = push_log ''Block fails. Foreign Aid succeeds.'' g2
                                 in Inr (result (beginLoseInfluence g3 blockerId
                                            ''lost_challenge'' EndTurn) [])))
                    else if everyonePassed rs then
                      (case getPlayer g1 (actorId pa) of
                         None \<Rightarrow> Inl TypeError
                       | Some actor \<Rightarrow>
                           Inr (finishTurn
                                  (push_log ''Foreign Aid is blocked.''
                                     (update_player (actorId pa)
                                        (\<lambda>p. p\<lparr>coins := coins p - 2\<rparr>) g1))))
                    else Inr (result g1 []))))"

text \<open>
  The challenge stage of assassinate, steal and exchange differs from one action to the
  other only in the role, the failure line and the continuation; each is written out as
  in the source.
\<close>

definition handleAssassinateChallenge ::
  "game \<Rightarrow> pending \<Rightarrow> player_id \<Rightarrow> string \<Rightarrow> error + reply \<times> game" where
  "handleAssassinateChallenge g pa k responseType =
     (if \<not> has_property k (responders pa) then Inr (result g [])
      else (case vote responseType of
              None \<Rightarrow> Inr (result g [])
            | Some v \<Rightarrow>
                (let g1 = mark g pa k v;
                     rs = assign k v (responders pa);
                     challengerId = firstChallenger rs
                 in if truthy challengerId then
                      (let actorHas = playerHasRole g1 (actorId pa) ''Assassin''
                       in case getPlayer g1 challengerId of
                            None \<Rightarrow> Inl TypeError
                          | Some challenger \<Rightarrow>
                              if actorHas then
                                (let g2 = push_log (name challenger @ '' challenges '' @ dash
                                                    @ '' FAILED.'') g1;
                                     g3 = snd (revealAndRedraw g2 (actorId pa) ''Assassin'')
                                 in Inr (result (beginLoseInfluence g3 challengerId
                                            ''failed_challenge''
                                            (AssassinateOpenBlock (actorId pa) (targetId pa))) []))
                              else
                                (let g2 = push_log (name challenger @ '' challenges '' @ dash
                                                    @ '' SUCCESS.'') g1;
                                     g3 = push_log ''Assassination fails.'' g2
                                 in Inr (result (beginLoseInfluence g3 (actorId pa)
                                            ''lost_challenge'' EndTurn) [])))
                    else if everyonePassed rs then
                      Inr (result (g1\<lparr>pendingAction := Some ((pending_obj AssassinateT AwaitingBlock)
                                     \<lparr>actorId := actorId pa, targetId := targetId pa,
                                      claimedRole := Some ''Assassin'', blockedBy := None,
                                      responders := [(prop_key (targetId pa), Pending)]\<rparr>)\<rparr>) [])
                    else Inr (result g1 []))))"

definition handleAssassinateBlock ::
  "game \<Rightarrow> pending \<Rightarrow> player_id \<Rightarrow> string \<Rightarrow> payload \<Rightarrow> error + reply \<times> game" where
  "handleAssassinateBlock g pa k responseType pl =
     (if Some k \<noteq> targetId pa then Inr (result g [])
      else if responseType = ''pass'' then
        Inr (result (beginLoseInfluence g (targetId pa) ''assassinated''
                       (EndTurnAfterAssassination (targetId pa))) [])
      else if responseType = ''block'' \<and> p_role pl = Some ''Contessa'' then
        (case getPlayer g (targetId pa) of
           None \<Rightarrow> Inl TypeError
         | Some target \<Rightarrow>
             (let g1 = push_log (name target @ '' blocks the assassination with Contessa.'') g
              in Inr (result (g1\<lparr>pendingAction := Some ((pending_obj AssassinateT AwaitingChallengeBlock)
                                \<lparr>actorId := actorId pa, targetId := targetId pa,
                                 blockedBy := targetId pa,
                                 responders := initResponders g1 (targetId pa)\<rparr>)\<rparr>) [])))
      else Inr (result g []))"

definition handleAssassinateChallengeBlock ::
  "game \<Rightarrow> pending \<Rightarrow> player_id \<Rightarrow> string \<Rightarrow> error + reply \<times> game" where
  "handleAssassinateChallengeBlock g pa k responseType =
     (if \<not> has_property k (responders pa) then Inr (result g [])
      else (case vote responseType of
              None \<Rightarrow> Inr (result g [])
            | Some v \<Rightarrow>
                (let g1 = mark g pa k v;
                     rs = assign k v (responders pa);
                     challengerId = firstChallenger rs
                 in if truthy challengerId then
                      (let blockerId = blockedBy pa;
                           blockerHas = playerHasRole g1 blockerId ''Contessa''
                       in case getPlayer g1 challengerId of
                            None \<Rightarrow> Inl TypeError
                          | Some challenger \<Rightarrow>
                              if blockerHas then
                                (let g2 = push_log (name challenger @ '' challenges block '' @ dash
                                                    @ '' FAILED.'') g1;
                                     g3 = snd (revealAndRedraw g2 blockerId ''Contessa'')
                                 in Inr (result (beginLoseInfluence g3 challengerId
                                            ''failed_challenge'' AssassinateBlockStands) []))
                              else
                                (let g2 = push_log (name challenger @ '' challenges block '' @ dash
                                                    @ '' SUCCESS.'') g1
                                 in Inr (result (beginLoseInfluence g2 blockerId
                                            ''lost_challenge''
                                            (AssassinateForceTargetLoss (actorId pa) (targetId pa))) [])))
                    else if everyonePassed rs then
                      Inr (finishTurn (push_log ''Assassination is blocked.'' g1))
                    else Inr (result g1 []))))"

definition handleStealChallenge ::
  "game \<Rightarrow> pending \<Rightarrow> player_id \<Rightarrow> string \<Rightarrow> error + reply \<times> game" where
  "handleStealChallenge g pa k responseType =
     (if \<not> has_property k (responders pa) then Inr (result g [])
      else (case vote responseType of
              None \<Rightarrow> Inr (result g [])
            | Some v \<Rightarrow>
                (let g1 = mark g pa k v;
                     rs = assign k v (responders pa);
                     challengerId = firstChallenger rs
                 in if truthy challengerId then
                      (let actorHas = playerHasRole g1 (actorId pa) ''Captain''
                       in case getPlayer g1 challengerId of
                            None \<Rightarrow> Inl TypeError
                          | Some challenger \<Rightarrow>
                              if actorHas then
                                (let g2 = push_log (name challenger @ '' challenges '' @ dash
                                                    @ '' FAILED.'') g1;
                                     g3 = snd (revealAndRedraw g2 (actorId pa) ''Captain'')
                                 in Inr (result (beginLoseInfluence g3 challengerId
                                            ''failed_challenge''
                                            (StealOpenBlock (actorId pa) (targetId pa))) []))
                              else
                                (let g2 = push_log (name challenger @ '' challenges '' @ dash
                                                    @ '' SUCCESS.'') g1;
                                     g3 = push_log ''Steal fails.'' g2
                                 in Inr (result (beginLoseInfluence g3 (actorId pa)
                                            ''lost_challenge'' EndTurn) [])))
                    else if everyonePassed rs then
                      Inr (result (g1\<lparr>pendingAction := Some ((pending_obj StealT AwaitingBlock)
                                     \<lparr>actorId := actorId pa, targetId := targetId pa,
                                      claimedRole := Some ''Captain'', blockedBy := None,
                                      blockRole := None,
                                      responders := [(prop_key (targetId pa), Pending)]\<rparr>)\<rparr>) [])
                    else Inr (result g1 []))))"

definition handleStealBlock ::
  "game \<Rightarrow> pending \<Rightarrow> player_id \<Rightarrow> string \<Rightarrow> payload \<Rightarrow> error + reply \<times> game" where
  "handleStealBlock g pa k responseType pl =
     (if Some k \<noteq> targetId pa then Inr (result g [])
      else if responseType = ''pass'' then
        Inr (finishTurn (applySteal (g\<lparr>pendingAction := None\<rparr>) (actorId pa) (targetId pa)))
      else if responseType = ''block''
              \<and> (p_role pl = Some ''Captain'' \<or> p_role pl = Some ''Ambassador'') then
        (case getPlayer g (targetId pa) of
           None \<Rightarrow> Inl TypeError
         | Some target \<Rightarrow>
             (let g1 = push_log (name target @ '' blocks the steal with ''
                                 @ (case p_role pl of Some r \<Rightarrow> r | None \<Rightarrow> []) @ ''.'') g
              in Inr (result (g1\<lparr>pendingAction := Some ((pending_obj StealT AwaitingChallengeBlock)
                                \<lparr>actorId := actorId pa, targetId := targetId pa,
                                 blockedBy := targetId pa, blockRole := p_role pl,
                                 responders := initResponders g1 (targetId pa)\<rparr>)\<rparr>) [])))
      else Inr (result g []))"

text \<open>\<open>pending.blockRole\<close> may be \<open>null\<close>; no card has the role \<open>null\<close>.\<close>

definition handleStealChallengeBlock ::
  "game \<Rightarrow> pending \<Rightarrow> player_id \<Rightarrow> string \<Rightarrow> error + reply \<times> game" where
  "handleStealChallengeBlock g pa k responseType =
     (if \<not> has_property k (responders pa) then Inr (result g [])
      else (case vote responseType of
              None \<Rightarrow> Inr (result g [])
            | Some v \<Rightarrow>
                (let g1 = mark g pa k v;
                     rs = assign k v (responders pa);
                     challengerId = firstChallenger rs
                 in if truthy challengerId then
                      (let blockerId = blockedBy pa;
                           blockerHas = (case blockRole pa of
                                           None \<Rightarrow> False
                                         | Some r \<Rightarrow> playerHasRole g1 blockerId r)
                       in case getPlayer g1 challengerId of
                            None \<Rightarrow> Inl TypeError
                          | Some challenger \<Rightarrow>
                              if blockerHas then
                                (let g2 = push_log (name challenger @ '' challenges block '' @ dash
                                                    @ '' FAILED.'') g1;
                                     g3 = (case blockRole pa of
                                             None \<Rightarrow> g2
                                           | Some r \<Rightarrow> snd (revealAndRedraw g2 blockerId r))
                                 in Inr (result (beginLoseInfluence g3 challengerId
                                            ''failed_challenge'' StealBlockStands) []))
                              else
                                (let g2 = push_log (name challenger @ '' challenges block '' @ dash
                                                    @ '' SUCCESS.'') g1
                                 in Inr (result (beginLoseInfluence g2 blockerId
                                            ''lost_challenge''
                                            (StealApplyAfterBlockFail (actorId pa) (targetId pa))) [])))
                    else if everyonePassed rs then
                      Inr (finishTurn (push_log ''Steal is blocked.'' g1))
                    else Inr (result g1 []))))"

definition handleExchangeChallenge ::
  "game \<Rightarrow> pending \<Rightarrow> player_id \<Rightarrow> string \<Rightarrow> error + reply \<times> game" where
  "handleExchangeChallenge g pa k responseType =
     (if \<not> has_property k (responders pa) then Inr (result g [])
      else (case vote responseType of
              None \<Rightarrow> Inr (result g [])
            | Some v \<Rightarrow>
                (let g1 = mark g pa k v;
                     rs = assign k v (responders pa);
                     challengerId = firstChallenger rs
                 in if truthy challengerId then
                      (let actorHas = playerHasRole g1 (actorId pa) ''Ambassador''
                       in case getPlayer g1 challengerId of
                            None \<Rightarrow> Inl TypeError
                          | Some challenger \<Rightarrow>
                              if actorHas then
                                (let g2 = push_log (name challenger @ '' challenges '' @ dash
                                                    @ '' FAILED.'') g1;
                                     g3 = snd (revealAndRedraw g2 (actorId pa) ''Ambassador'')
                                 in Inr (result (beginLoseInfluence g3 challengerId
                                            ''failed_challenge''
                                            (ExchangeStartChoice (actorId pa))) []))
                              else
                                (let g2 = push_log (name challenger @ '' challenges '' @ dash
                                                    @ '' SUCCESS.'') g1;
                                     g3 = push_log ''Exchange fails.'' g2
                                 in Inr (result (beginLoseInfluence g3 (actorId pa)
                                            ''lost_challenge'' EndTurn) [])))
                    else if everyonePassed rs then
                      Inr (startExchangeChoice g1 (actorId pa))
                    else Inr (result g1 []))))"

text \<open>
  \<open>for (let k = 0; k < handSlots.length; k++) actor.influence[handSlots[k]] =
  { role: chosen[k].role, revealed: false }\<close>, run where both lists have the same length.
\<close>

definition replace_slots :: "card list \<Rightarrow> nat list \<Rightarrow> exchange_option list \<Rightarrow> card list" where
  "replace_slots cs handSlots chosen =
     fold (\<lambda>(i, c) acc. acc[i := \<lparr>role = opt_role c, revealed = False\<rparr>]) (zip handSlots chosen) cs"

text \<open>
  \<open>[...new Set(keep)]\<close> is used for its length and for \<open>includes\<close> only, which
  \<open>remdups\<close> gives; a payload whose \<open>keep\<close> is not an array is \<open>None\<close>.
\<close>

definition handleExchangeChoice ::
  "game \<Rightarrow> pending \<Rightarrow> player_id \<Rightarrow> string \<Rightarrow> payload \<Rightarrow> error + reply \<times> game" where
  "handleExchangeChoice g pa k responseType pl =
     (if Some k \<noteq> actorId pa then Inr (result g [])
      else if responseType \<noteq> ''exchangeChoice'' then Inr (result g [])
      else (case private_exchange g (Some k) of
              None \<Rightarrow> Inr (result g [])
            | Some sec \<Rightarrow>
                (let keep = (case p_keep pl of None \<Rightarrow> [] | Some ks \<Rightarrow> ks);
                     unique = remdups keep
                 in if length unique \<noteq> sec_keepCount sec then Inr (result g [])
                    else
                      (let chosen = filter (\<lambda>e. opt_id e \<in> set unique) (options sec)
                       in if length chosen \<noteq> sec_keepCount sec then Inr (result g [])
                          else (case getPlayer g (Some k) of
                                  None \<Rightarrow> Inr (result g [])
                                | Some actor \<Rightarrow>
                                    (let handSlots = unrevealed_slots (influence actor)
                                     in if length handSlots \<noteq> sec_keepCount sec
                                        then Inr (result g [])
                                        else
                                          (let unchosenRoles = map opt_role
                                                 (filter (\<lambda>e. opt_id e \<notin> set unique) (options sec));
                                               g1 = update_player (Some k)
                                                      (\<lambda>p. p\<lparr>influence :=
                                                         replace_slots (influence p) handSlots chosen\<rparr>) g;
                                               g2 = returnToDeck unchosenRoles g1;
                                               g3 = g2\<lparr>private_exchange :=
                                                         (private_exchange g2)(Some k := None)\<rparr>;
                                               g4 = push_log (name actor @ '' completes Exchange.'') g3
                                           in Inr (finishTurn g4))))))))"

text \<open>
  The blocks of \<open>handleResponse\<close> are guarded by the type of the pending action, which
  no block changes before it returns, so a block that is left without returning reaches
  the final \<open>return\<close>; the chain below lists the guards in the order of the source.
\<close>

definition handleResponse ::
  "game \<Rightarrow> player_id \<Rightarrow> string \<Rightarrow> payload \<Rightarrow> error + reply \<times> game" where
  "handleResponse g k responseType pl =
     (case pendingAction g of
        None \<Rightarrow> Inr (result g [])
      | Some pa \<Rightarrow>
          if ptype pa = LoseInfluenceT then handleLoseInfluence g pa k responseType pl
          else if ptype pa = TaxT \<and> stage pa = AwaitingChallenge
            then handleTax g pa k responseType
          else if ptype pa = ForeignAidT \<and> stage pa = AwaitingBlock
            then handleForeignAidBlock g pa k responseType pl
          else if ptype pa = ForeignAidT \<and> stage pa = AwaitingChallengeBlock
            then handleForeignAidChallengeBlock g pa k responseType
          else if ptype pa = AssassinateT \<and> stage pa = AwaitingChallenge
            then handleAssassinateChallenge g pa k responseType
          else if ptype pa = AssassinateT \<and> stage pa = AwaitingBlock
            then handleAssassinateBlock g pa k responseType pl
          else if ptype pa = AssassinateT \<and> stage pa = AwaitingChallengeBlock
            then handleAssassinateChallengeBlock g pa k responseType
          else if ptype pa = StealT \<and> stage pa = AwaitingChallenge
            then handleStealChallenge g pa k responseType
          else if ptype pa = StealT \<and> stage pa = AwaitingBlock
            then handleStealBlock g pa k responseType pl
          else if ptype pa = StealT \<and> stage pa = AwaitingChallengeBlock
            then handleStealChallengeBlock g pa k responseType
          else if ptype pa = ExchangeT \<and> stage pa = AwaitingChallenge
            then handleExchangeChallenge g pa k responseType
          else if ptype pa = ExchangeT \<and> stage pa = AwaitingChoice
            then handleExchangeChoice g pa k responseType pl
          else Inr (result g []))"

section \<open>Predicates and example states used by the theorems\<close>

text \<open>
  \<open>currentPlayer\<close> leaves the game as it is exactly when the turn pointer is settled:
  the game is over, nobody is alive, or the player under \<open>turnIndex\<close> is alive.
\<close>

definition turn_settled :: "game \<Rightarrow> bool" where
  "turn_settled g =
     (gameOver g \<or> alivePlayers g = []
      \<or> isAlive g (Some (pid (players g ! (turnIndex g mod length (players g))))))"

definition demo_players :: "player list" where
  "demo_players =
     [\<lparr>pid = ''a'', name = ''Ann'', coins = 12,
       influence = [\<lparr>role = ''Duke'', revealed = False\<rparr>, \<lparr>role = ''Captain'', revealed = True\<rparr>]\<rparr>,
      \<lparr>pid = ''b'', name = ''Bob'', coins = 1,
       influence = [\<lparr>role = ''Assassin'', revealed = False\<rparr>, \<lparr>role = ''Contessa'', revealed = False\<rparr>]\<rparr>,
      \<lparr>pid = ''c'', name = ''Cy'', coins = 7,
       influence = [\<lparr>role = ''Ambassador'', revealed = False\<rparr>, \<lparr>role = ''Captain'', revealed = False\<rparr>]\<rparr>]"

definition demo_game :: game where
  "demo_game =
     \<lparr>players = demo_players,
      deck = [''Duke'', ''Contessa'', ''Assassin'', ''Ambassador'', ''Duke'', ''Captain'',
              ''Contessa'', ''Assassin'', ''Ambassador''],
      log = [], turnIndex = 0, pendingAction = None, gameOver = False, winnerId = None,
      private_exchange = Map.empty, random_tape = [3, 1, 4, 1, 5, 9, 2, 6]\<rparr>"

text \<open>Three copies of each of the five roles.\<close>

definition full_deck :: "role_name multiset" where
  "full_deck = mset (concat (map (replicate 3) roles))"

text \<open>The coins of the player \<open>getPlayer\<close> finds for an id, if there is one.\<close>

definition coins_of :: "game \<Rightarrow> player_id option \<Rightarrow> int option" where
  "coins_of g i = map_option coins (getPlayer g i)"

text \<open>
  The player \<open>k\<close> is listed in the responders object of the pending action (an own key:
  \<open>initResponders\<close> lists the players that may respond).
\<close>

definition in_responders :: "player_id \<Rightarrow> pending \<Rightarrow> bool" where
  "in_responders k pa = (k \<in> fst ` set (responders pa))"

text \<open>No entry of the responders object carries the mark \<open>challenged\<close>.\<close>

definition no_challenge_mark :: "(player_id \<times> rstatus) list \<Rightarrow> bool" where
  "no_challenge_mark rs = list_all (\<lambda>e. snd e \<noteq> Challenged) rs"

text \<open>A steal whose block window is open, and one whose block is being challenged.\<close>

definition demo_steal :: game where
  "demo_steal = demo_game\<lparr>pendingAction := Some ((pending_obj StealT AwaitingBlock)
      \<lparr>actorId := Some ''c'', targetId := Some ''b'', claimedRole := Some ''Captain'',
       responders := [(''b'', Pending)]\<rparr>)\<rparr>"

definition demo_steal_blocked :: game where
  "demo_steal_blocked = demo_game\<lparr>pendingAction := Some ((pending_obj StealT AwaitingChallengeBlock)
      \<lparr>actorId := Some ''c'', targetId := Some ''b'', blockedBy := Some ''b'',
       blockRole := Some ''Captain'', responders := [(''a'', Pending), (''c'', Pending)]\<rparr>)\<rparr>"

definition demo_steal_lost :: game where
  "demo_steal_lost = demo_game\<lparr>pendingAction := Some ((pending_obj LoseInfluenceT AwaitingChoice)
      \<lparr>playerId := Some ''b'', reason := Some ''lost_challenge'',
       continuation := Some (StealApplyAfterBlockFail (Some ''c'') (Some ''b''))\<rparr>)\<rparr>"

text \<open>The cards of the player \<open>getPlayer\<close> finds for an id, if there is one.\<close>

definition hand_of :: "game \<Rightarrow> player_id option \<Rightarrow> card list option" where
  "hand_of g i = map_option influence (getPlayer g i)"

text \<open>
  A hand keeps its reveals: the same number of slots, and every slot that was revealed
  is revealed. A players list keeps its reveals: the same players in the same order, each
  hand keeping its reveals.
\<close>

definition hand_kept :: "card list \<Rightarrow> card list \<Rightarrow> bool" where
  "hand_kept cs cs' = list_all2 (\<lambda>c c'. revealed c \<longrightarrow> revealed c') cs cs'"

definition player_kept :: "player \<Rightarrow> player \<Rightarrow> bool" where
  "player_kept p p' = (pid p' = pid p \<and> hand_kept (influence p) (influence p'))"

definition reveals_kept :: "player list \<Rightarrow> player list \<Rightarrow> bool" where
  "reveals_kept ps ps' = list_all2 player_kept ps ps'"

text \<open>
  One operation of the engine on the game: one call of \<open>resolveAction\<close>, one call of
  \<open>handleResponse\<close> that returns, or one call of the mutators \<open>revealAndRedraw\<close> and
  \<open>loseInfluence\<close>.
\<close>

inductive engine_step :: "game \<Rightarrow> game \<Rightarrow> bool" where
  step_action: "engine_step g (snd (resolveAction g aid actionType tid))"
| step_response: "handleResponse g k responseType pl = Inr (out, g') \<Longrightarrow> engine_step g g'"
| step_reveal: "engine_step g (snd (revealAndRedraw g i r))"
| step_lose: "engine_step g (snd (loseInfluence g i cardIndex))"

text \<open>
  An exchange waiting for the actor's choice: Cy holds two unrevealed cards, the two cards
  drawn are the last two of the options.
\<close>

definition demo_secret :: secret where
  "demo_secret =
     \<lparr>sec_keepCount = 2,
      options = [\<lparr>opt_id = ''h0'', opt_role = ''Ambassador'', source = Hand, handIndex = Some 0\<rparr>,
                 \<lparr>opt_id = ''h1'', opt_role = ''Captain'', source = Hand, handIndex = Some 1\<rparr>,
                 \<lparr>opt_id = ''d2'', opt_role = ''Duke'', source = Drawn, handIndex = None\<rparr>,
                 \<lparr>opt_id = ''d3'', opt_role = ''Contessa'', source = Drawn, handIndex = None\<rparr>]\<rparr>"

definition demo_exchange :: game where
  "demo_exchange =
     demo_game\<lparr>turnIndex := 2,
               deck := [''Duke'', ''Contessa'', ''Assassin'', ''Ambassador'', ''Assassin'',
                        ''Ambassador'', ''Captain''],
               pendingAction := Some ((pending_obj ExchangeT AwaitingChoice)
                                       \<lparr>actorId := Some ''c'', keepCount := Some 2\<rparr>),
               private_exchange := [Some ''c'' \<mapsto> demo_secret]\<rparr>"

section \<open>Games in play\<close>

text \<open>
  The states of a game in play. The server starts a game with the constructor, on the
  players that joined; it passes an \<open>action\<close> message to \<open>resolveAction\<close> only when the
  sender is the current player and no action is pending; it passes every \<open>response\<close>
  message to \<open>handleResponse\<close>; it computes projections for the clients. \<open>Math.random\<close>
  may be in any state.
\<close>

inductive reachable :: "game \<Rightarrow> bool" where
  start: "reachable (GameEngine ps tape)"
| action: "reachable g \<Longrightarrow> currentPlayer g = (Some cur, g1) \<Longrightarrow> pid cur = aid
           \<Longrightarrow> pendingAction g1 = None
           \<Longrightarrow> reachable (snd (resolveAction g1 aid actionType tid))"
| response: "reachable g \<Longrightarrow> handleResponse g k responseType pl = Inr (out, g') \<Longrightarrow> reachable g'"
| projection: "reachable g \<Longrightarrow> reachable (snd (getStateFor g viewerId))"
| chance: "reachable g \<Longrightarrow> reachable (g\<lparr>random_tape := tape\<rparr>)"

text \<open>\<open>players[k].influence.push({ role: r, revealed: false })\<close>, as the constructor deals.\<close>

definition add_card :: "nat \<Rightarrow> role_name \<Rightarrow> game \<Rightarrow> game" where
  "add_card k r g =
     g\<lparr>players := (players g)[k := (players g ! k)
          \<lparr>influence := influence (players g ! k) @ [\<lparr>role = r, revealed = False\<rparr>]\<rparr>]\<rparr>"

text \<open>A fresh game of two players, with \<open>Math.random\<close> returning 0 throughout.\<close>

definition demo_fresh :: game where
  "demo_fresh = GameEngine [(''a'', ''Ann''), (''b'', ''Bob'')] []"

text \<open>
  The cards of a game: the deck and, for every player, the roles of their influence,
  face down (held) or face up (revealed). The two cards drawn for an exchange whose
  choice is outstanding are in neither: they are options of the actor's entry in
  \<open>_private.exchange\<close>, with source \<open>drawn\<close>.
\<close>

definition hand_roles :: "player \<Rightarrow> role_name list" where
  "hand_roles p = map role (influence p)"

definition held_roles :: "game \<Rightarrow> role_name list" where
  "held_roles g = concat (map (\<lambda>p. map role (filter (\<lambda>c. \<not> revealed c) (influence p))) (players g))"

definition revealed_roles :: "game \<Rightarrow> role_name list" where
  "revealed_roles g = concat (map (\<lambda>p. map role (filter revealed (influence p))) (players g))"

definition all_cards :: "game \<Rightarrow> role_name list" where
  "all_cards g = deck g @ concat (map hand_roles (players g))"

definition drawn_cards :: "secret \<Rightarrow> role_name list" where
  "drawn_cards sec = map opt_role (filter (\<lambda>e. source e = Drawn) (options sec))"

definition is_choice :: "pending \<Rightarrow> bool" where
  "is_choice pa = (ptype pa = ExchangeT \<and> stage pa = AwaitingChoice)"

definition choosing :: "game \<Rightarrow> bool" where
  "choosing g = (case pendingAction g of None \<Rightarrow> False | Some pa \<Rightarrow> is_choice pa)"

definition in_flight :: "game \<Rightarrow> role_name list" where
  "in_flight g =
     (case pendingAction g of
        None \<Rightarrow> []
      | Some pa \<Rightarrow>
          if is_choice pa
          then (case private_exchange g (actorId pa) of None \<Rightarrow> [] | Some sec \<Rightarrow> drawn_cards sec)
          else [])"

text \<open>Six players at most, two cards each: the deck then never runs out.\<close>

definition sized :: "game \<Rightarrow> bool" where
  "sized g = (length (players g) \<le> 6 \<and> list_all (\<lambda>p. length (influence p) = 2) (players g))"

definition stocked :: "game \<Rightarrow> bool" where
  "stocked g = (sized g \<and> mset (all_cards g) = full_deck)"

text \<open>
  While the choice of an exchange is outstanding, the options stored for the actor are
  the actor's face-down cards and the two cards drawn.
\<close>

definition exch_ok :: "game \<Rightarrow> bool" where
  "exch_ok g =
     (case pendingAction g of
        None \<Rightarrow> True
      | Some pa \<Rightarrow>
          if is_choice pa
          then (case private_exchange g (actorId pa) of
                  None \<Rightarrow> False
                | Some sec \<Rightarrow>
                    (case getPlayer g (actorId pa) of
                       None \<Rightarrow> False
                     | Some actor \<Rightarrow>
                         mset (map opt_role (options sec))
                           = mset (map role (filter (\<lambda>c. \<not> revealed c) (influence actor)))
                             + mset (drawn_cards sec)))
          else True)"

definition conserved :: "game \<Rightarrow> bool" where
  "conserved g = (sized g \<and> mset (all_cards g) + mset (in_flight g) = full_deck \<and> exch_ok g)"

text \<open>The options that \<open>startExchangeChoice\<close> builds from the face-down cards of a hand.\<close>

definition hand_options :: "card list \<Rightarrow> exchange_option list" where
  "hand_options cs =
     map (\<lambda>(sq, i). \<lparr>opt_id = ''h'' @ show_nat sq, opt_role = role (cs ! i),
                      source = Hand, handIndex = Some i\<rparr>)
       (zip [0 ..< length (unrevealed_slots cs)] (unrevealed_slots cs))"

text \<open>The state of the constructor's dealing loop when the first \<open>k\<close> players have their cards.\<close>

definition dealt :: "nat \<Rightarrow> game \<Rightarrow> bool" where
  "dealt k g = (mset (all_cards g) = full_deck \<and> length (deck g) + 2 * k = 15
      \<and> list_all (\<lambda>j. length (influence (players g ! j)) = (if j < k then 2 else 0))
           [0 ..< length (players g)])"

text \<open>
  The two-player game after the first player has claimed an exchange and the second has
  passed: the first player's choice is outstanding.
\<close>

definition demo_claimed :: game where
  "demo_claimed = snd (resolveAction (snd (currentPlayer demo_fresh)) ''a'' ''exchange'' None)"

definition demo_choice :: game where
  "demo_choice =
     (case handleResponse demo_claimed ''b'' ''pass'' \<lparr>p_role = None, p_cardIndex = None, p_keep = None\<rparr> of
        Inl e \<Rightarrow> demo_claimed
      | Inr (out, g') \<Rightarrow> g')"

text \<open>
  A game of seven players after the first has claimed an exchange and the six others have
  passed, one after the other.
\<close>

definition pass_all :: "player_id list \<Rightarrow> game \<Rightarrow> game" where
  "pass_all ks g =
     fold (\<lambda>k h. case handleResponse h k ''pass'' \<lparr>p_role = None, p_cardIndex = None, p_keep = None\<rparr> of
                     Inl e \<Rightarrow> h
                   | Inr (out, h') \<Rightarrow> h')
          ks g"

definition demo_seven :: game where
  "demo_seven = GameEngine [(''a'', ''Ann''), (''b'', ''Bob''), (''c'', ''Cy''), (''d'', ''Dee''),
                            (''e'', ''Eve''), (''f'', ''Fay''), (''g'', ''Gil'')] []"

definition demo_seven_choice :: game where
  "demo_seven_choice =
     pass_all [''b'', ''c'', ''d'', ''e'', ''f'', ''g'']
       (snd (resolveAction (snd (currentPlayer demo_seven)) ''a'' ''exchange'' None))"

text \<open>A fresh game of eight players, the most that the later server admits.\<close>

definition demo_eight :: game where
  "demo_eight = GameEngine [(''a'', ''Ann''), (''b'', ''Bob''), (''c'', ''Cy''), (''d'', ''Dee''),
                            (''e'', ''Eve''), (''f'', ''Fay''), (''g'', ''Gil''), (''h'', ''Hal'')] []"

text \<open>
  An action started while the choice is outstanding, which the server's gate excludes:
  the actor of the exchange takes income instead of choosing.
\<close>

definition demo_ungated :: game where
  "demo_ungated = snd (resolveAction demo_choice ''a'' ''income'' None)"

text \<open>
  The turn pointer after \<open>nextTurn\<close>. The seat \<open>j\<close> is alive when the player sitting there
  is; \<open>j\<close> is the next living seat after \<open>i\<close> when it is the first living seat met going
  round the table from the seat after \<open>i\<close> (coming back to \<open>i\<close> itself at the end).

  The turn has passed from \<open>g\<close> to \<open>g'\<close>, as \<open>nextTurn\<close> does it: a game that was over is
  left over, with its winner and its pointer; if exactly one player is alive the game is
  over, that player has won and the pointer has not moved; otherwise the game goes on with
  the winner field as before and the pointer on the next living seat (if nobody is alive,
  the pointer has gone once round the table).
\<close>

definition seat_alive :: "game \<Rightarrow> nat \<Rightarrow> bool" where
  "seat_alive g j = isAlive g (Some (pid (players g ! j)))"

definition next_living :: "game \<Rightarrow> nat \<Rightarrow> nat \<Rightarrow> bool" where
  "next_living g i j =
     (\<exists>d \<in> {1 .. length (players g)}.
         j = (i + d) mod length (players g) \<and> seat_alive g j
       \<and> (\<forall>e \<in> {1 ..< d}. \<not> seat_alive g ((i + e) mod length (players g))))"

definition turn_passed :: "game \<Rightarrow> game \<Rightarrow> bool" where
  "turn_passed g g' =
     (if gameOver g
      then gameOver g' \<and> winnerId g' = winnerId g \<and> turnIndex g' = turnIndex g
      else if length (alivePlayers g') = 1
      then gameOver g' \<and> winnerId g' = Some (pid (hd (alivePlayers g'))) \<and> turnIndex g' = turnIndex g
      else \<not> gameOver g' \<and> winnerId g' = winnerId g
           \<and> (if alivePlayers g' = [] then turnIndex g' = turnIndex g mod length (players g')
               else next_living g' (turnIndex g) (turnIndex g')))"

text \<open>Every entry of \<open>_private.exchange\<close> holds options with pairwise different ids.\<close>

definition option_ids_distinct :: "game \<Rightarrow> bool" where
  "option_ids_distinct g = (\<forall>sec \<in> ran (private_exchange g). distinct (map opt_id (options sec)))"

text \<open>
  Running the server on a list of messages: \<open>threw\<close> tells whether a call of the resolver
  threw, and \<open>after_response\<close> is the game after a \<open>response\<close> message (the game of before
  if the call threw). The payload \<open>{}\<close> has no field. \<open>pending_view\<close> shows the type of the
  pending action, its stage, actor, claimed role, blocker and responders.
\<close>

definition threw :: "error + reply \<times> game \<Rightarrow> bool" where
  "threw r = (case r of Inl e \<Rightarrow> True | Inr x \<Rightarrow> False)"

definition after_response :: "game \<Rightarrow> player_id \<Rightarrow> string \<Rightarrow> payload \<Rightarrow> game" where
  "after_response g k rt pl = (case handleResponse g k rt pl of Inl e \<Rightarrow> g | Inr (out, g') \<Rightarrow> g')"

definition no_payload :: payload where
  "no_payload = \<lparr>p_role = None, p_cardIndex = None, p_keep = None\<rparr>"

definition pending_view ::
  "game \<Rightarrow> (ptype \<times> stage \<times> player_id option \<times> role_name option \<times> player_id option
            \<times> (player_id \<times> rstatus) list) option" where
  "pending_view g =
     map_option (\<lambda>pa. (ptype pa, stage pa, actorId pa, claimedRole pa, blockedBy pa, responders pa))
       (pendingAction g)"

text \<open>
  Games in which a client has joined with the empty string as identifier (server.js keeps
  \<open>data.id\<close> as it comes), with \<open>Math.random\<close> returning 0 throughout. In the game of two,
  Bob claims the Duke for a tax and the other player challenges.
\<close>

definition demo_blank :: game where
  "demo_blank = GameEngine [(''b'', ''Bob''), ('''', ''Eve'')] []"

definition demo_blank_tax :: game where
  "demo_blank_tax = snd (resolveAction (snd (currentPlayer demo_blank)) ''b'' ''tax'' None)"

definition demo_blank_challenged :: game where
  "demo_blank_challenged = after_response demo_blank_tax '''' ''challenge'' no_payload"

text \<open>
  In the game of three, either Ann claims the Duke for a tax, the third player challenges
  and Bob passes; or Ann takes foreign aid, Bob blocks it as Duke, the third player
  challenges the block, and Ann and the third player pass.
\<close>

definition demo_three :: game where
  "demo_three = GameEngine [(''a'', ''Ann''), (''b'', ''Bob''), ('''', ''Eve'')] []"

definition demo_three_tax :: game where
  "demo_three_tax = snd (resolveAction (snd (currentPlayer demo_three)) ''a'' ''tax'' None)"

definition demo_three_marked :: game where
  "demo_three_marked = after_response demo_three_tax '''' ''challenge'' no_payload"

definition demo_three_later :: game where
  "demo_three_later = after_response demo_three_marked ''b'' ''pass'' no_payload"

definition demo_three_aid :: game where
  "demo_three_aid = snd (resolveAction (snd (currentPlayer demo_three)) ''a'' ''foreign_aid'' None)"

definition demo_three_block :: game where
  "demo_three_block = after_response demo_three_aid ''b'' ''block''
      \<lparr>p_role = Some ''Duke'', p_cardIndex = None, p_keep = None\<rparr>"

definition demo_three_block_challenged :: game where
  "demo_three_block_challenged = after_response demo_three_block '''' ''challenge'' no_payload"

definition demo_three_actor_passed :: game where
  "demo_three_actor_passed = after_response demo_three_block_challenged ''a'' ''pass'' no_payload"

definition demo_three_aid_end :: game where
  "demo_three_aid_end = after_response demo_three_actor_passed '''' ''pass'' no_payload"

section \<open>Frame lemmas\<close>

lemma push_log_fields [simp]:
  "players (push_log m g) = players g"
  "deck (push_log m g) = deck g"
  "turnIndex (push_log m g) = turnIndex g"
  "pendingAction (push_log m g) = pendingAction g"
  "gameOver (push_log m g) = gameOver g"
  "winnerId (push_log m g) = winnerId g"
  "private_exchange (push_log m g) = private_exchange g"
  "random_tape (push_log m g) = random_tape g"
  "log (push_log m g) = log g @ [m]"
  by (simp_all add: push_log_def)

lemma update_player_fields [simp]:
  "players (update_player i f g) = map_first (\<lambda>p. Some (pid p) = i) f (players g)"
  "deck (update_player i f g) = deck g"
  "turnIndex (update_player i f g) = turnIndex g"
  "pendingAction (update_player i f g) = pendingAction g"
  "gameOver (update_player i f g) = gameOver g"
  "winnerId (update_player i f g) = winnerId g"
  "private_exchange (update_player i f g) = private_exchange g"
  "random_tape (update_player i f g) = random_tape g"
  "log (update_player i f g) = log g"
  by (simp_all add: update_player_def)

lemma getPlayer_cong: "players g' = players g \<Longrightarrow> getPlayer g' = getPlayer g"
  by (simp add: getPlayer_def fun_eq_iff)

lemma isAlive_cong: "players g' = players g \<Longrightarrow> isAlive g' = isAlive g"
  by (simp add: isAlive_def getPlayer_def fun_eq_iff)

lemma alivePlayers_cong: "players g' = players g \<Longrightarrow> alivePlayers g' = alivePlayers g"
  by (simp add: alivePlayers_def isAlive_def getPlayer_def)

lemma playerHasRole_cong: "players g' = players g \<Longrightarrow> playerHasRole g' = playerHasRole g"
  by (simp add: playerHasRole_def getPlayer_def fun_eq_iff)

lemma currentPlayer_loop_frame:
  "\<exists>t. snd (currentPlayer_loop k g) = g\<lparr>turnIndex := t\<rparr>"
proof (induction k arbitrary: g)
  case 0
  have "g = g\<lparr>turnIndex := turnIndex g\<rparr>" by simp
  then show ?case by (auto split: list.splits intro: exI[of _ "turnIndex g"])
next
  case (Suc k)
  show ?case
  proof (cases "isAlive g (Some (pid (players g ! (turnIndex g mod length (players g)))))")
    case True
    then show ?thesis by (auto simp: Let_def intro: exI[of _ "turnIndex g"])
  next
    case False
    from Suc[of "g\<lparr>turnIndex := (turnIndex g + 1) mod length (players g)\<rparr>"]
    obtain t where "snd (currentPlayer_loop k (g\<lparr>turnIndex := (turnIndex g + 1) mod length (players g)\<rparr>))
        = g\<lparr>turnIndex := t\<rparr>" by auto
    with False show ?thesis by (auto simp: Let_def)
  qed
qed

lemma currentPlayer_frame: "\<exists>t. snd (currentPlayer g) = g\<lparr>turnIndex := t\<rparr>"
proof -
  have "g = g\<lparr>turnIndex := turnIndex g\<rparr>" by simp
  then show ?thesis
    using currentPlayer_loop_frame[of "length (players g)" g]
    by (auto simp: currentPlayer_def intro: exI[of _ "turnIndex g"])
qed

lemma currentPlayer_settled: "turn_settled g \<Longrightarrow> snd (currentPlayer g) = g"
proof -
  assume s: "turn_settled g"
  show ?thesis
  proof (cases "gameOver g \<or> alivePlayers g = []")
    case True
    then show ?thesis by (auto simp: currentPlayer_def)
  next
    case False
    then have "players g \<noteq> []" by (auto simp: alivePlayers_def)
    then obtain n where n: "length (players g) = Suc n" by (cases "players g") auto
    from False s have "isAlive g (Some (pid (players g ! (turnIndex g mod length (players g)))))"
      by (simp add: turn_settled_def)
    with False n show ?thesis by (simp add: currentPlayer_def Let_def)
  qed
qed

lemma result_snd: "snd (result g ps) = snd (currentPlayer g)"
  by (simp add: result_def getPublicState_def getStateFor_def split: prod.splits)

section \<open>Confidentiality of the per-viewer projection\<close>

lemma getStateFor_players:
  "v_players (fst (getStateFor g viewer)) = map (view_player g viewer) (players g)"
  by (simp add: getStateFor_def split: prod.splits)

text \<open>
  C1. In the projection \<open>getStateFor\<close> computes for a viewer, the card in slot \<open>i\<close> of
  the player at position \<open>k\<close> is the placeholder \<open>?\<close>, unrevealed, whenever the card is
  unrevealed and the player is not the viewer; it is the card itself when the card is
  revealed or the player is the viewer; so a role other than the placeholder is shown only
  to the owner or for a revealed card. The placeholder is not the name of a role.
  This holds in every game state, reachable or not.
\<close>

theorem projection_hides_unrevealed:
  assumes "k < length (players g)" and "i < length (influence (players g ! k))"
  shows "let p = players g ! k; c = influence p ! i;
             shown = v_influence (v_players (fst (getStateFor g viewer)) ! k) ! i
         in (\<not> revealed c \<and> Some (pid p) \<noteq> viewer \<longrightarrow> shown = \<lparr>role = ''?'', revealed = False\<rparr>)
          \<and> (revealed c \<or> Some (pid p) = viewer \<longrightarrow> shown = c)
          \<and> (role shown \<noteq> ''?'' \<longrightarrow> revealed c \<or> Some (pid p) = viewer)
          \<and> ''?'' \<notin> set roles"
  using assms
  by (simp add: getStateFor_players view_player_def view_card_def Let_def roles_def)

theorem projection_hides_unrevealed_witness:
  "(1::nat) < length (players demo_game) \<and> (0::nat) < length (influence (players demo_game ! 1))
   \<and> \<not> revealed (influence (players demo_game ! 1) ! 0)
   \<and> Some (pid (players demo_game ! 1)) \<noteq> Some ''a''
   \<and> role (influence (players demo_game ! 1) ! 0) = ''Assassin''
   \<and> v_influence (v_players (fst (getStateFor demo_game (Some ''a''))) ! 1) ! 0
       = \<lparr>role = ''?'', revealed = False\<rparr>"
  using projection_hides_unrevealed [of 1 demo_game 0 "Some ''a''"]
  by (simp add: demo_game_def demo_players_def Let_def)

lemma turn_settled_cong:
  "players g' = players g \<Longrightarrow> turnIndex g' = turnIndex g \<Longrightarrow> gameOver g' = gameOver g
   \<Longrightarrow> turn_settled g' = turn_settled g"
  by (simp add: turn_settled_def alivePlayers_def isAlive_def getPlayer_def)

lemma result_settled: "turn_settled g \<Longrightarrow> snd (result g ps) = g"
  by (simp add: result_snd currentPlayer_settled)

lemma currentPlayer_loop_finds:
  "j < k \<Longrightarrow> isAlive g (Some (pid (players g ! ((turnIndex g + j) mod length (players g)))))
   \<Longrightarrow> turn_settled (snd (currentPlayer_loop k g))"
proof (induction k arbitrary: g j)
  case 0
  then show ?case by simp
next
  case (Suc k)
  let ?n = "length (players g)"
  show ?case
  proof (cases "isAlive g (Some (pid (players g ! (turnIndex g mod ?n))))")
    case True
    then show ?thesis by (simp add: Let_def turn_settled_def)
  next
    case False
    let ?g' = "g\<lparr>turnIndex := (turnIndex g + 1) mod ?n\<rparr>"
    from False Suc.prems have "j \<noteq> 0" by (cases j) auto
    then obtain j' where j': "j = Suc j'" by (cases j) auto
    have al: "isAlive ?g' = isAlive g" by (rule isAlive_cong) simp
    have "((turnIndex g + 1) mod ?n + j') mod ?n = (turnIndex g + j) mod ?n"
      using j' by (simp add: mod_add_left_eq)
    then have "isAlive ?g' (Some (pid (players ?g' ! ((turnIndex ?g' + j') mod length (players ?g')))))"
      using Suc.prems(2) al by simp
    moreover have "j' < k" using Suc.prems(1) j' by simp
    ultimately have "turn_settled (snd (currentPlayer_loop k ?g'))"
      using Suc.IH[of j' ?g'] by blast
    with False show ?thesis by (simp add: Let_def)
  qed
qed

lemma currentPlayer_yields_settled: "turn_settled (snd (currentPlayer g))"
proof (cases "gameOver g \<or> alivePlayers g = []")
  case True
  then show ?thesis by (auto simp: currentPlayer_def turn_settled_def)
next
  case False
  let ?n = "length (players g)"
  from False obtain p where p: "p \<in> set (players g)" "isAlive g (Some (pid p))"
    by (auto simp: alivePlayers_def filter_empty_conv)
  then obtain m where m: "m < ?n" "players g ! m = p" by (auto simp: in_set_conv_nth)
  let ?j = "(m + ?n - turnIndex g mod ?n) mod ?n"
  have n0: "0 < ?n" using m by auto
  have "?j < ?n" using n0 by simp
  moreover have "(turnIndex g + ?j) mod ?n = m"
  proof -
    have le: "turnIndex g mod ?n \<le> m + ?n" using n0
      by (meson mod_less_divisor less_imp_le_nat trans_le_add2)
    have "(turnIndex g + ?j) mod ?n = (turnIndex g mod ?n + (m + ?n - turnIndex g mod ?n)) mod ?n"
      by (simp add: mod_simps)
    also have "\<dots> = (m + ?n) mod ?n" using le by simp
    also have "\<dots> = m" using m by simp
    finally show ?thesis .
  qed
  ultimately have "turn_settled (snd (currentPlayer_loop ?n g))"
    using p m by (intro currentPlayer_loop_finds[of ?j]) simp_all
  with False show ?thesis by (simp add: currentPlayer_def)
qed

lemma result_yields_settled: "turn_settled (snd (result g ps))"
  by (simp add: result_snd currentPlayer_yields_settled)

section \<open>Mandatory Coup\<close>

text \<open>
  C4. When the actor exists and holds at least 10 coins, \<open>resolveAction\<close> with any
  action type other than \<open>coup\<close> returns the game it was given with one line added to
  the log: no coins change, no pending action is created, the turn pointer and every
  other field stay as they were. The turn pointer is settled in every game that
  \<open>currentPlayer\<close> has looked at (lemma \<open>currentPlayer_yields_settled\<close>), which
  includes every game the constructor or the resolver returned.
\<close>

theorem mandatory_coup_rejects_other_actions:
  assumes "getPlayer g (Some aid) = Some actor" and "coins actor \<ge> 10"
    and "actionType \<noteq> ''coup''" and "turn_settled g"
  shows "snd (resolveAction g aid actionType tid)
         = g\<lparr>log := log g @ [name actor @ '' has 10+ coins and must Coup.'']\<rparr>"
proof -
  have "turn_settled (push_log (name actor @ '' has 10+ coins and must Coup.'') g) = turn_settled g"
    by (rule turn_settled_cong) simp_all
  then show ?thesis using assms
    by (simp add: resolveAction_def result_settled push_log_def)
qed

theorem mandatory_coup_rejects_other_actions_witness:
  "getPlayer demo_game (Some ''a'') = Some (demo_players ! 0) \<and> coins (demo_players ! 0) \<ge> 10
   \<and> ''tax'' \<noteq> ''coup'' \<and> turn_settled demo_game
   \<and> snd (resolveAction demo_game ''a'' ''tax'' None)
       = demo_game\<lparr>log := log demo_game @ [name (demo_players ! 0) @ '' has 10+ coins and must Coup.'']\<rparr>"
proof -
  have h1: "getPlayer demo_game (Some ''a'') = Some (demo_players ! 0)"
    by (simp add: getPlayer_def demo_game_def demo_players_def)
  have h2: "coins (demo_players ! 0) \<ge> 10" by (simp add: demo_players_def)
  have h3: "''tax'' \<noteq> ''coup''" by simp
  have h4: "turn_settled demo_game"
    by (simp add: turn_settled_def isAlive_def getPlayer_def demo_game_def demo_players_def unrevealed_def)
  show ?thesis
    using mandatory_coup_rejects_other_actions [OF h1 h2 h3 h4, of None] h1 h2 h4 by simp
qed

section \<open>Lemmas about the players list\<close>

lemma currentPlayer_fields [simp]:
  "players (snd (currentPlayer g)) = players g"
  "deck (snd (currentPlayer g)) = deck g"
  "log (snd (currentPlayer g)) = log g"
  "pendingAction (snd (currentPlayer g)) = pendingAction g"
  "gameOver (snd (currentPlayer g)) = gameOver g"
  "winnerId (snd (currentPlayer g)) = winnerId g"
  "private_exchange (snd (currentPlayer g)) = private_exchange g"
  "random_tape (snd (currentPlayer g)) = random_tape g"
proof -
  obtain t where t: "snd (currentPlayer g) = g\<lparr>turnIndex := t\<rparr>"
    using currentPlayer_frame by blast
  show "players (snd (currentPlayer g)) = players g"
    "deck (snd (currentPlayer g)) = deck g"
    "log (snd (currentPlayer g)) = log g"
    "pendingAction (snd (currentPlayer g)) = pendingAction g"
    "gameOver (snd (currentPlayer g)) = gameOver g"
    "winnerId (snd (currentPlayer g)) = winnerId g"
    "private_exchange (snd (currentPlayer g)) = private_exchange g"
    "random_tape (snd (currentPlayer g)) = random_tape g"
    by (simp_all add: t)
qed

lemma result_fields [simp]:
  "players (snd (result g ps)) = players g"
  "deck (snd (result g ps)) = deck g"
  "log (snd (result g ps)) = log g"
  "pendingAction (snd (result g ps)) = pendingAction g"
  "gameOver (snd (result g ps)) = gameOver g"
  "winnerId (snd (result g ps)) = winnerId g"
  "private_exchange (snd (result g ps)) = private_exchange g"
  "random_tape (snd (result g ps)) = random_tape g"
  by (simp_all add: result_snd)

lemma find_map_first:
  assumes "\<And>x. P (f x) = P x"
  shows "find P (map_first P f xs) = map_option f (find P xs)"
  by (induction xs) (simp_all add: assms)

lemma find_map_first_other:
  assumes "\<And>x. Q (f x) = Q x" and "\<And>x. P x \<Longrightarrow> \<not> Q x"
  shows "find Q (map_first P f xs) = find Q xs"
  using assms by (induction xs) auto

lemma getPlayer_update_player:
  assumes "\<And>p. pid (f p) = pid p"
  shows "getPlayer (update_player i f g) j
         = (if j = i then map_option f (getPlayer g i) else getPlayer g j)"
proof (cases "j = i")
  case True
  then show ?thesis
    by (simp add: getPlayer_def find_map_first assms)
next
  case False
  have "find (\<lambda>p. Some (pid p) = j) (map_first (\<lambda>p. Some (pid p) = i) f (players g))
        = find (\<lambda>p. Some (pid p) = j) (players g)"
    by (rule find_map_first_other) (use False assms in auto)
  with False show ?thesis by (simp add: getPlayer_def)
qed

lemma getPlayer_pid: "getPlayer g i = Some p \<Longrightarrow> i = Some (pid p)"
  by (auto simp: getPlayer_def find_Some_iff)

lemma getPlayer_mem: "getPlayer g i = Some p \<Longrightarrow> p \<in> set (players g)"
  by (auto simp: getPlayer_def find_Some_iff)

section \<open>Coup on oneself\<close>

text \<open>
  C9. \<open>resolveAction\<close> accepts a coup whose target is the actor: for a living actor with
  at least 7 coins, \<open>coup\<close> with \<open>targetId\<close> equal to the actor's id takes 7 coins from
  the actor and makes the pending action a forced loss of influence addressed to the actor,
  with the continuation that ends the turn. \<open>assassinate\<close> and \<open>steal\<close> with the actor
  as target are rejected: players and pending action stay as they were.
\<close>

theorem coup_accepts_self_target:
  assumes "getPlayer g (Some aid) = Some actor" and "isAlive g (Some aid)" and "7 \<le> coins actor"
  shows "getPlayer (snd (resolveAction g aid ''coup'' (Some aid))) (Some aid)
           = Some (actor\<lparr>coins := coins actor - 7\<rparr>)
       \<and> pendingAction (snd (resolveAction g aid ''coup'' (Some aid)))
           = Some ((pending_obj LoseInfluenceT AwaitingChoice)
                    \<lparr>playerId := Some aid, reason := Some ''coup'', continuation := Some EndTurn\<rparr>)
       \<and> players (snd (resolveAction g aid ''assassinate'' (Some aid))) = players g
       \<and> pendingAction (snd (resolveAction g aid ''assassinate'' (Some aid))) = pendingAction g
       \<and> players (snd (resolveAction g aid ''steal'' (Some aid))) = players g
       \<and> pendingAction (snd (resolveAction g aid ''steal'' (Some aid))) = pendingAction g"
proof -
  have id: "pid actor = aid" using getPlayer_pid[OF assms(1)] by simp
  let ?dec = "\<lambda>p. p\<lparr>coins := coins p - 7\<rparr>"
  let ?g1 = "update_player (Some aid) ?dec g"
  have gp: "getPlayer ?g1 (Some aid) = Some (actor\<lparr>coins := coins actor - 7\<rparr>)"
    using assms(1) by (simp add: getPlayer_update_player)
  have coup: "snd (resolveAction g aid ''coup'' (Some aid))
      = snd (result (beginLoseInfluence
               (push_log (name actor @ '' launches a Coup on '' @ name actor @ '' (7 coins).'') ?g1)
               (Some aid) ''coup'' EndTurn) [])"
    using assms by (simp add: resolveAction_def resolve_coup_def id Let_def)
  have c1: "getPlayer (snd (resolveAction g aid ''coup'' (Some aid))) (Some aid)
           = Some (actor\<lparr>coins := coins actor - 7\<rparr>)"
    unfolding coup using gp by (simp add: getPlayer_def beginLoseInfluence_def)
  have c2: "pendingAction (snd (resolveAction g aid ''coup'' (Some aid)))
           = Some ((pending_obj LoseInfluenceT AwaitingChoice)
                    \<lparr>playerId := Some aid, reason := Some ''coup'', continuation := Some EndTurn\<rparr>)"
    unfolding coup by (simp add: beginLoseInfluence_def)
  have a: "players (snd (resolveAction g aid ''assassinate'' (Some aid))) = players g
         \<and> pendingAction (snd (resolveAction g aid ''assassinate'' (Some aid))) = pendingAction g"
    using assms(1) by (simp add: resolveAction_def resolve_assassinate_def id)
  have s: "players (snd (resolveAction g aid ''steal'' (Some aid))) = players g
         \<and> pendingAction (snd (resolveAction g aid ''steal'' (Some aid))) = pendingAction g"
    using assms(1) by (simp add: resolveAction_def resolve_steal_def id)
  from c1 c2 a s show ?thesis by simp
qed

theorem coup_accepts_self_target_witness:
  "getPlayer demo_game (Some ''a'') = Some (demo_players ! 0) \<and> isAlive demo_game (Some ''a'')
   \<and> 7 \<le> coins (demo_players ! 0)
   \<and> map_option coins (getPlayer (snd (resolveAction demo_game ''a'' ''coup'' (Some ''a''))) (Some ''a''))
       = Some 5
   \<and> map_option playerId (pendingAction (snd (resolveAction demo_game ''a'' ''coup'' (Some ''a''))))
       = Some (Some ''a'')"
proof -
  have h1: "getPlayer demo_game (Some ''a'') = Some (demo_players ! 0)"
    by (simp add: getPlayer_def demo_game_def demo_players_def)
  have h2: "isAlive demo_game (Some ''a'')"
    by (simp add: isAlive_def getPlayer_def demo_game_def demo_players_def unrevealed_def)
  have h3: "7 \<le> coins (demo_players ! 0)" by (simp add: demo_players_def)
  show ?thesis
    using coup_accepts_self_target [OF h1 h2 h3] h1 h2 h3
    by (simp add: demo_players_def)
qed

section \<open>Shuffling and the deck\<close>

lemma random_below_less: "0 < n \<Longrightarrow> fst (random_below n rs) < n"
  by (cases rs) simp_all

lemma shuffle_loop_mset:
  "k < length arr \<Longrightarrow> mset (fst (shuffle_loop k arr rs)) = mset arr"
proof (induction k arbitrary: arr rs)
  case 0
  then show ?case by simp
next
  case (Suc k)
  obtain j rs' where r: "random_below (Suc k + 1) rs = (j, rs')" by (cases "random_below (Suc k + 1) rs")
  have "j < Suc k + 1" using random_below_less[of "Suc k + 1" rs] r by simp
  then have j: "j < length arr" using Suc.prems by simp
  let ?arr = "arr[Suc k := arr ! j, j := arr ! Suc k]"
  have "mset ?arr = mset arr" using Suc.prems j by (simp add: mset_swap)
  moreover have "k < length ?arr" using Suc.prems by simp
  ultimately show ?case using Suc.IH[of ?arr rs'] r by simp
qed

lemma shuffle_mset [simp]: "mset (fst (shuffle arr rs)) = mset arr"
proof (cases arr)
  case Nil
  then show ?thesis by (simp add: shuffle_def)
next
  case (Cons a as)
  then show ?thesis by (simp add: shuffle_def shuffle_loop_mset)
qed

lemma shuffle_length [simp]: "length (fst (shuffle arr rs)) = length arr"
  using shuffle_mset[of arr rs] by (metis size_mset)

lemma shuffle_set [simp]: "set (fst (shuffle arr rs)) = set arr"
  using shuffle_mset[of arr rs] by (metis set_mset_mset)

lemma makeDeck_mset [simp]: "mset (fst (makeDeck rs)) = full_deck"
  by (simp add: makeDeck_def full_deck_def)

lemma makeDeck_length [simp]: "length (fst (makeDeck rs)) = 15"
  by (simp add: makeDeck_def roles_def)

lemma makeDeck_nonempty [simp]: "fst (makeDeck rs) \<noteq> []"
  using makeDeck_length[of rs] by (metis list.size(3) zero_neq_numeral)

lemma draw_fields [simp]:
  "players (snd (draw g)) = players g"
  "log (snd (draw g)) = log g"
  "turnIndex (snd (draw g)) = turnIndex g"
  "pendingAction (snd (draw g)) = pendingAction g"
  "gameOver (snd (draw g)) = gameOver g"
  "winnerId (snd (draw g)) = winnerId g"
  "private_exchange (snd (draw g)) = private_exchange g"
  by (simp_all add: draw_def Let_def split: prod.splits)

lemma draw_nonempty:
  "deck g \<noteq> [] \<Longrightarrow> fst (draw g) = last (deck g) \<and> deck (snd (draw g)) = butlast (deck g)
     \<and> random_tape (snd (draw g)) = random_tape g"
  by (simp add: draw_def)

lemma draw_nonempty_mset:
  "deck g \<noteq> [] \<Longrightarrow> add_mset (fst (draw g)) (mset (deck (snd (draw g)))) = mset (deck g)"
  by (simp add: draw_nonempty) (metis append_butlast_last_id mset.simps(2) mset_append union_mset_add_mset_right add.right_neutral mset.simps(1))

lemma draw_empty_mset:
  "deck g = [] \<Longrightarrow> add_mset (fst (draw g)) (mset (deck (snd (draw g)))) = full_deck"
proof -
  assume e: "deck g = []"
  obtain d rs where m: "makeDeck (random_tape g) = (d, rs)" by (cases "makeDeck (random_tape g)")
  have d: "d \<noteq> []" "mset d = full_deck"
    using makeDeck_nonempty[of "random_tape g"] makeDeck_mset[of "random_tape g"] m by simp_all
  have "add_mset (last d) (mset (butlast d)) = mset d"
    using d(1) by (metis append_butlast_last_id mset.simps(2) mset_append union_mset_add_mset_right add.right_neutral mset.simps(1))
  then show ?thesis using e m d by (simp add: draw_def)
qed

lemma returnToDeck_fields [simp]:
  "players (returnToDeck rls g) = players g"
  "log (returnToDeck rls g) = log g"
  "turnIndex (returnToDeck rls g) = turnIndex g"
  "pendingAction (returnToDeck rls g) = pendingAction g"
  "gameOver (returnToDeck rls g) = gameOver g"
  "winnerId (returnToDeck rls g) = winnerId g"
  "private_exchange (returnToDeck rls g) = private_exchange g"
  by (simp_all add: returnToDeck_def split: prod.splits)

lemma returnToDeck_alt:
  "returnToDeck rls g = g\<lparr>deck := fst (shuffle (rev rls @ deck g) (random_tape g)),
                           random_tape := snd (shuffle (rev rls @ deck g) (random_tape g))\<rparr>"
  by (simp add: returnToDeck_def split: prod.splits)

lemma returnToDeck_mset [simp]:
  "mset (deck (returnToDeck rls g)) = mset rls + mset (deck g)"
  by (simp add: returnToDeck_alt)

lemma returnToDeck_nonempty: "rls \<noteq> [] \<Longrightarrow> deck (returnToDeck rls g) \<noteq> []"
  using returnToDeck_mset[of rls g] by (metis mset_zero_iff union_eq_empty)

section \<open>What each operation leaves unchanged\<close>

lemma set_card_fields [simp]:
  "players (set_card i k c g)
     = map_first (\<lambda>p. Some (pid p) = i) (\<lambda>p. p\<lparr>influence := (influence p)[k := c]\<rparr>) (players g)"
  "deck (set_card i k c g) = deck g"
  "log (set_card i k c g) = log g"
  "turnIndex (set_card i k c g) = turnIndex g"
  "pendingAction (set_card i k c g) = pendingAction g"
  "gameOver (set_card i k c g) = gameOver g"
  "winnerId (set_card i k c g) = winnerId g"
  "private_exchange (set_card i k c g) = private_exchange g"
  "random_tape (set_card i k c g) = random_tape g"
  by (simp_all add: set_card_def)

lemma beginLoseInfluence_fields [simp]:
  "players (beginLoseInfluence g p r c) = players g"
  "deck (beginLoseInfluence g p r c) = deck g"
  "log (beginLoseInfluence g p r c) = log g"
  "turnIndex (beginLoseInfluence g p r c) = turnIndex g"
  "gameOver (beginLoseInfluence g p r c) = gameOver g"
  "winnerId (beginLoseInfluence g p r c) = winnerId g"
  "private_exchange (beginLoseInfluence g p r c) = private_exchange g"
  "random_tape (beginLoseInfluence g p r c) = random_tape g"
  "pendingAction (beginLoseInfluence g p r c)
     = Some ((pending_obj LoseInfluenceT AwaitingChoice)
              \<lparr>playerId := p, reason := Some r, continuation := Some c\<rparr>)"
  by (simp_all add: beginLoseInfluence_def)

lemma mark_fields [simp]:
  "players (mark g pa k v) = players g"
  "deck (mark g pa k v) = deck g"
  "log (mark g pa k v) = log g"
  "turnIndex (mark g pa k v) = turnIndex g"
  "gameOver (mark g pa k v) = gameOver g"
  "winnerId (mark g pa k v) = winnerId g"
  "private_exchange (mark g pa k v) = private_exchange g"
  "random_tape (mark g pa k v) = random_tape g"
  "pendingAction (mark g pa k v) = Some (pa\<lparr>responders := assign k v (responders pa)\<rparr>)"
  by (simp_all add: mark_def)

lemma checkWin_fields [simp]:
  "players (checkWin g) = players g"
  "deck (checkWin g) = deck g"
  "turnIndex (checkWin g) = turnIndex g"
  "pendingAction (checkWin g) = pendingAction g"
  "private_exchange (checkWin g) = private_exchange g"
  "random_tape (checkWin g) = random_tape g"
  by (simp_all add: checkWin_def split: list.splits)

lemma nextTurn_loop_frame: "\<exists>t. nextTurn_loop k g = g\<lparr>turnIndex := t\<rparr>"
proof (induction k arbitrary: g)
  case 0
  have "g = g\<lparr>turnIndex := turnIndex g\<rparr>" by simp
  then show ?case by (auto intro: exI[of _ "turnIndex g"])
next
  case (Suc k)
  let ?g' = "g\<lparr>turnIndex := (turnIndex g + 1) mod length (players g)\<rparr>"
  obtain t where t: "nextTurn_loop k ?g' = ?g'\<lparr>turnIndex := t\<rparr>" using Suc by blast
  show ?case
  proof (cases "isAlive ?g' (Some (pid (players ?g' ! turnIndex ?g')))")
    case True
    then have "nextTurn_loop (Suc k) g = ?g'" by (simp add: Let_def)
    then show ?thesis by blast
  next
    case False
    then have "nextTurn_loop (Suc k) g = nextTurn_loop k ?g'" by (simp add: Let_def)
    with t have "nextTurn_loop (Suc k) g = g\<lparr>turnIndex := t\<rparr>" by simp
    then show ?thesis by blast
  qed
qed

lemma nextTurn_loop_fields [simp]:
  "players (nextTurn_loop k g) = players g"
  "deck (nextTurn_loop k g) = deck g"
  "log (nextTurn_loop k g) = log g"
  "pendingAction (nextTurn_loop k g) = pendingAction g"
  "gameOver (nextTurn_loop k g) = gameOver g"
  "winnerId (nextTurn_loop k g) = winnerId g"
  "private_exchange (nextTurn_loop k g) = private_exchange g"
  "random_tape (nextTurn_loop k g) = random_tape g"
proof -
  obtain t where t: "nextTurn_loop k g = g\<lparr>turnIndex := t\<rparr>"
    using nextTurn_loop_frame by blast
  show "players (nextTurn_loop k g) = players g"
    "deck (nextTurn_loop k g) = deck g"
    "log (nextTurn_loop k g) = log g"
    "pendingAction (nextTurn_loop k g) = pendingAction g"
    "gameOver (nextTurn_loop k g) = gameOver g"
    "winnerId (nextTurn_loop k g) = winnerId g"
    "private_exchange (nextTurn_loop k g) = private_exchange g"
    "random_tape (nextTurn_loop k g) = random_tape g"
    by (simp_all add: t)
qed

lemma announce_turn_alt:
  "announce_turn g =
     (case fst (currentPlayer g) of
        None \<Rightarrow> snd (currentPlayer g)
      | Some cp \<Rightarrow> push_log (''It is now '' @ name cp @ [CHR 0x27] @ ''s turn.'') (snd (currentPlayer g)))"
  by (simp add: announce_turn_def split: prod.splits option.splits)

lemma announce_turn_fields [simp]:
  "players (announce_turn g) = players g"
  "deck (announce_turn g) = deck g"
  "pendingAction (announce_turn g) = pendingAction g"
  "gameOver (announce_turn g) = gameOver g"
  "winnerId (announce_turn g) = winnerId g"
  "private_exchange (announce_turn g) = private_exchange g"
  "random_tape (announce_turn g) = random_tape g"
  by (simp_all add: announce_turn_alt split: option.splits)

lemma nextTurn_fields [simp]:
  "players (nextTurn g) = players g"
  "deck (nextTurn g) = deck g"
  "pendingAction (nextTurn g) = pendingAction g"
  "private_exchange (nextTurn g) = private_exchange g"
  "random_tape (nextTurn g) = random_tape g"
  by (simp_all add: nextTurn_def Let_def)

lemma finishTurn_fields [simp]:
  "players (snd (finishTurn g)) = players g"
  "deck (snd (finishTurn g)) = deck g"
  "pendingAction (snd (finishTurn g)) = None"
  "private_exchange (snd (finishTurn g)) = private_exchange g"
  "random_tape (snd (finishTurn g)) = random_tape g"
  by (simp_all add: finishTurn_def)

section \<open>Revealing cards\<close>

lemma map_first_map_first:
  assumes "\<And>x. P (f x) = P x"
  shows "map_first P h (map_first P f xs) = map_first P (\<lambda>x. h (f x)) xs"
  by (induction xs) (simp_all add: assms)

lemma map_first_length [simp]: "length (map_first P f xs) = length xs"
  by (induction xs) simp_all

lemma map_first_none: "find P xs = None \<Longrightarrow> map_first P f xs = xs"
  by (induction xs) (auto split: if_splits)

lemma findIndex_Some:
  "findIndex P xs = Some i \<Longrightarrow> i < length xs \<and> P (xs ! i)"
proof (induction xs arbitrary: i)
  case Nil
  then show ?case by simp
next
  case (Cons x xs)
  then show ?case by (cases "P x") (auto split: if_splits)
qed

lemma findIndex_ex: "list_ex P xs \<Longrightarrow> \<exists>i. findIndex P xs = Some i"
  by (induction xs) auto

lemma revealAndRedraw_fail:
  "getPlayer g i = None \<Longrightarrow> revealAndRedraw g i r = (False, g)"
  "getPlayer g i = Some p \<Longrightarrow> findIndex (\<lambda>c. \<not> revealed c \<and> role c = r) (influence p) = None
   \<Longrightarrow> revealAndRedraw g i r = (False, g)"
  by (simp_all add: revealAndRedraw_def)

lemma revealAndRedraw_ok:
  assumes "getPlayer g i = Some p"
    and "findIndex (\<lambda>c. \<not> revealed c \<and> role c = r) (influence p) = Some idx"
  shows "revealAndRedraw g i r =
     (True,
      push_log (name p @ '' draws a replacement influence.'')
        (set_card i idx
           \<lparr>role = fst (draw (returnToDeck [r] (push_log (name p @ '' reveals '' @ r @ ''.'')
                      (set_card i idx ((influence p ! idx)\<lparr>revealed := True\<rparr>) g)))),
            revealed = False\<rparr>
           (snd (draw (returnToDeck [r] (push_log (name p @ '' reveals '' @ r @ ''.'')
                      (set_card i idx ((influence p ! idx)\<lparr>revealed := True\<rparr>) g)))))))"
  using assms by (simp add: revealAndRedraw_def Let_def split: prod.splits)

lemma revealAndRedraw_fields [simp]:
  "turnIndex (snd (revealAndRedraw g i r)) = turnIndex g"
  "pendingAction (snd (revealAndRedraw g i r)) = pendingAction g"
  "gameOver (snd (revealAndRedraw g i r)) = gameOver g"
  "winnerId (snd (revealAndRedraw g i r)) = winnerId g"
  "private_exchange (snd (revealAndRedraw g i r)) = private_exchange g"
proof -
  consider (a) "getPlayer g i = None"
    | (b) p where "getPlayer g i = Some p"
        "findIndex (\<lambda>c. \<not> revealed c \<and> role c = r) (influence p) = None"
    | (c) p idx where "getPlayer g i = Some p"
        "findIndex (\<lambda>c. \<not> revealed c \<and> role c = r) (influence p) = Some idx"
    by (cases "getPlayer g i") auto
  then show "turnIndex (snd (revealAndRedraw g i r)) = turnIndex g"
    "pendingAction (snd (revealAndRedraw g i r)) = pendingAction g"
    "gameOver (snd (revealAndRedraw g i r)) = gameOver g"
    "winnerId (snd (revealAndRedraw g i r)) = winnerId g"
    "private_exchange (snd (revealAndRedraw g i r)) = private_exchange g"
    by (cases; simp add: revealAndRedraw_fail revealAndRedraw_ok)+
qed

lemma revealAndRedraw_players:
  assumes "getPlayer g i = Some p"
    and "findIndex (\<lambda>c. \<not> revealed c \<and> role c = r) (influence p) = Some idx"
  shows "\<exists>d. players (snd (revealAndRedraw g i r))
               = map_first (\<lambda>q. Some (pid q) = i)
                   (\<lambda>q. q\<lparr>influence := (influence q)[idx := \<lparr>role = d, revealed = False\<rparr>]\<rparr>) (players g)
            \<and> add_mset d (mset (deck (snd (revealAndRedraw g i r)))) = add_mset r (mset (deck g))"
proof -
  let ?g3 = "returnToDeck [r] (push_log (name p @ '' reveals '' @ r @ ''.'')
               (set_card i idx ((influence p ! idx)\<lparr>revealed := True\<rparr>) g))"
  let ?d = "fst (draw ?g3)"
  have ne: "deck ?g3 \<noteq> []" by (rule returnToDeck_nonempty) simp
  have "add_mset ?d (mset (deck (snd (draw ?g3)))) = mset (deck ?g3)"
    using ne by (rule draw_nonempty_mset)
  then have dk: "add_mset ?d (mset (deck (snd (revealAndRedraw g i r)))) = add_mset r (mset (deck g))"
    by (simp add: revealAndRedraw_ok[OF assms])
  have pl: "players (snd (revealAndRedraw g i r))
        = map_first (\<lambda>q. Some (pid q) = i)
            (\<lambda>q. q\<lparr>influence := (influence q)[idx := \<lparr>role = ?d, revealed = False\<rparr>]\<rparr>) (players g)"
    by (simp add: revealAndRedraw_ok[OF assms] map_first_map_first)
  from pl dk show ?thesis by blast
qed

lemma getPlayer_map_first:
  assumes "players g' = map_first (\<lambda>q. Some (pid q) = i) f (players g)"
    and "\<And>q. pid (f q) = pid q"
  shows "getPlayer g' j = (if j = i then map_option f (getPlayer g i) else getPlayer g j)"
proof -
  have "players g' = players (update_player i f g)" using assms(1) by simp
  then have "getPlayer g' = getPlayer (update_player i f g)" by (rule getPlayer_cong)
  then show ?thesis by (simp add: getPlayer_update_player assms(2))
qed

section \<open>Losing an influence\<close>

lemma find_SomeD: "find P xs = Some x \<Longrightarrow> P x \<and> x \<in> set xs"
  by (induction xs) (auto split: if_splits)

lemma find_indexed_Some:
  assumes "find (\<lambda>(c, k). Some k = ci) (filter (\<lambda>(c, k). \<not> revealed c) (zip cs [0 ..< length cs]))
           = Some (c, k)"
  shows "ci = Some k \<and> k < length cs \<and> c = cs ! k \<and> \<not> revealed (cs ! k)"
proof -
  from assms have "(c, k) \<in> set (filter (\<lambda>(c, k). \<not> revealed c) (zip cs [0 ..< length cs]))"
    and "Some k = ci"
    using find_SomeD[OF assms] by auto
  then show ?thesis by (auto simp: set_zip)
qed

lemma loseInfluence_False: "loseInfluence g i ci = (False, g1) \<Longrightarrow> g1 = g"
  by (auto simp: loseInfluence_def Let_def split: option.splits prod.splits)

lemma loseInfluence_True:
  assumes "loseInfluence g i ci = (True, g1)"
  shows "\<exists>p k. getPlayer g i = Some p \<and> ci = Some k \<and> k < length (influence p)
               \<and> \<not> revealed (influence p ! k)
               \<and> g1 = checkWin (push_log (name p @ '' loses influence ('' @ role (influence p ! k)
                                            @ '' revealed).'')
                          (set_card i k ((influence p ! k)\<lparr>revealed := True\<rparr>) g))"
proof -
  from assms obtain p where p: "getPlayer g i = Some p"
    by (auto simp: loseInfluence_def split: option.splits)
  let ?f = "find (\<lambda>(c, k). Some k = ci)
              (filter (\<lambda>(c, k). \<not> revealed c) (zip (influence p) [0 ..< length (influence p)]))"
  from assms p obtain c k where f: "?f = Some (c, k)"
    by (cases ?f) (auto simp: loseInfluence_def Let_def)
  note fk = find_indexed_Some[OF f]
  from assms p f have "g1 = checkWin (push_log (name p @ '' loses influence ('' @ role c
                                            @ '' revealed).'')
                          (set_card i k (c\<lparr>revealed := True\<rparr>) g))"
    by (simp add: loseInfluence_def Let_def)
  with p fk show ?thesis by blast
qed

lemma loseInfluence_valid:
  assumes "getPlayer g i = Some p" and "k < length (influence p)" and "\<not> revealed (influence p ! k)"
  shows "fst (loseInfluence g i (Some k))"
proof -
  let ?xs = "filter (\<lambda>(c, k). \<not> revealed c) (zip (influence p) [0 ..< length (influence p)])"
  have "(influence p ! k, k) \<in> set ?xs" using assms(2,3) by (auto simp: set_zip)
  then have "find (\<lambda>(c, j). Some j = Some k) ?xs \<noteq> None"
    by (auto simp: find_None_iff)
  then show ?thesis using assms(1)
    by (auto simp: loseInfluence_def Let_def split: option.splits)
qed

lemma loseInfluence_fields [simp]:
  "deck (snd (loseInfluence g i ci)) = deck g"
  "turnIndex (snd (loseInfluence g i ci)) = turnIndex g"
  "pendingAction (snd (loseInfluence g i ci)) = pendingAction g"
  "private_exchange (snd (loseInfluence g i ci)) = private_exchange g"
  "random_tape (snd (loseInfluence g i ci)) = random_tape g"
proof -
  obtain ok g1 where r: "loseInfluence g i ci = (ok, g1)" by (cases "loseInfluence g i ci")
  show "deck (snd (loseInfluence g i ci)) = deck g"
    "turnIndex (snd (loseInfluence g i ci)) = turnIndex g"
    "pendingAction (snd (loseInfluence g i ci)) = pendingAction g"
    "private_exchange (snd (loseInfluence g i ci)) = private_exchange g"
    "random_tape (snd (loseInfluence g i ci)) = random_tape g"
    using loseInfluence_False[of g i ci g1] loseInfluence_True[of g i ci g1] r
    by (cases ok; auto)+
qed

section \<open>Coins\<close>

lemma coins_of_cong: "players g' = players g \<Longrightarrow> coins_of g' = coins_of g"
  by (simp add: coins_of_def getPlayer_def fun_eq_iff)

lemma coins_of_simple [simp]:
  "coins_of (push_log m g) = coins_of g"
  "coins_of (checkWin g) = coins_of g"
  "coins_of (nextTurn g) = coins_of g"
  "coins_of (snd (result g ps)) = coins_of g"
  "coins_of (snd (finishTurn g)) = coins_of g"
  "coins_of (beginLoseInfluence g p r c) = coins_of g"
  "coins_of (mark g pa k v) = coins_of g"
  "coins_of (g\<lparr>pendingAction := x\<rparr>) = coins_of g"
  by (rule coins_of_cong, simp)+

lemma coins_of_update_coins:
  "coins_of (update_player i (\<lambda>p. p\<lparr>coins := h (coins p)\<rparr>) g) j
     = (if j = i then map_option h (coins_of g i) else coins_of g j)"
  by (simp add: coins_of_def getPlayer_update_player option.map_comp comp_def)

lemma coins_of_update_influence:
  "coins_of (update_player i (\<lambda>p. p\<lparr>influence := h p\<rparr>) g) j = coins_of g j"
  by (simp add: coins_of_def getPlayer_update_player option.map_comp comp_def)

lemma coins_of_set_card [simp]: "coins_of (set_card i k c g) = coins_of g"
  by (simp add: set_card_def coins_of_update_influence fun_eq_iff)

lemma coins_of_loseInfluence [simp]: "coins_of (snd (loseInfluence g i ci)) = coins_of g"
proof -
  obtain ok g1 where r: "loseInfluence g i ci = (ok, g1)" by (cases "loseInfluence g i ci")
  show ?thesis
    using loseInfluence_False[of g i ci g1] loseInfluence_True[of g i ci g1] r
    by (cases ok) auto
qed

lemma coins_of_revealAndRedraw [simp]: "coins_of (snd (revealAndRedraw g i r)) = coins_of g"
proof -
  consider (a) "getPlayer g i = None"
    | (b) p where "getPlayer g i = Some p"
        "findIndex (\<lambda>c. \<not> revealed c \<and> role c = r) (influence p) = None"
    | (c) p idx where "getPlayer g i = Some p"
        "findIndex (\<lambda>c. \<not> revealed c \<and> role c = r) (influence p) = Some idx"
    by (cases "getPlayer g i") auto
  then show ?thesis
  proof cases
    case a
    then show ?thesis by (simp add: revealAndRedraw_fail)
  next
    case b
    then show ?thesis by (simp add: revealAndRedraw_fail)
  next
    case c
    from revealAndRedraw_players[OF c] obtain d where
      "players (snd (revealAndRedraw g i r))
         = players (update_player i (\<lambda>q. q\<lparr>influence := (influence q)[idx := \<lparr>role = d, revealed = False\<rparr>]\<rparr>) g)"
      by auto
    then have "coins_of (snd (revealAndRedraw g i r))
         = coins_of (update_player i (\<lambda>q. q\<lparr>influence := (influence q)[idx := \<lparr>role = d, revealed = False\<rparr>]\<rparr>) g)"
      by (rule coins_of_cong)
    then show ?thesis by (simp add: coins_of_update_influence fun_eq_iff)
  qed
qed

lemma applySteal_coins:
  assumes "coins_of g a = Some ca" and "coins_of g t = Some ct" and "a \<noteq> t"
  shows "coins_of (applySteal g a t) t = Some (ct - min 2 ct)"
    and "coins_of (applySteal g a t) a = Some (ca + min 2 ct)"
proof -
  from assms obtain actor target where p: "getPlayer g a = Some actor" "getPlayer g t = Some target"
    and c: "coins actor = ca" "coins target = ct"
    by (auto simp: coins_of_def)
  let ?amt = "min 2 ct"
  have eq: "applySteal g a t
      = push_log (name actor @ '' steals '' @ show_int ?amt @ '' coin(s) from '' @ name target @ ''.'')
          (update_player a (\<lambda>p. p\<lparr>coins := coins p + ?amt\<rparr>)
             (update_player t (\<lambda>p. p\<lparr>coins := coins p - ?amt\<rparr>) g))"
    using p c by (simp add: applySteal_def Let_def)
  show "coins_of (applySteal g a t) t = Some (ct - min 2 ct)"
    unfolding eq using assms
    by (simp add: coins_of_update_coins[where h = "\<lambda>x. x + min 2 ct"]
                  coins_of_update_coins[where h = "\<lambda>x. x - min 2 ct"])
  show "coins_of (applySteal g a t) a = Some (ca + min 2 ct)"
    unfolding eq using assms
    by (simp add: coins_of_update_coins[where h = "\<lambda>x. x + min 2 ct"]
                  coins_of_update_coins[where h = "\<lambda>x. x - min 2 ct"])
qed

section \<open>Votes\<close>

lemma assign_own: "k \<in> fst ` set rs \<Longrightarrow> assign k v rs = update_entry k v rs"
  by (simp add: assign_def)

lemma update_entry_keys [simp]: "fst ` set (update_entry k v rs) = fst ` set rs"
  by (induction rs) auto

lemma insert_entry_set [simp]: "set (insert_entry k v rs) = insert (k, v) (set rs)"
  by (induction rs) auto

lemma own_has_property: "in_responders k pa \<Longrightarrow> has_property k (responders pa)"
  by (simp add: in_responders_def has_property_def)

text \<open>
  A name inherited from \<open>Object.prototype\<close> passes the guard of the handlers whatever the
  responders are; the vote of such a sender creates an entry, except under \<open>__proto__\<close>.
  A key that is an array index is listed before the keys that are not.
\<close>

lemma inherited_has_property:
  "has_property ''constructor'' rs" "has_property ''toString'' rs" "has_property ''__proto__'' rs"
  by (simp_all add: has_property_def object_prototype_names_def)

lemma assign_examples:
  "assign ''constructor'' Passed [(''b'', Pending)] = [(''b'', Pending), (''constructor'', Passed)]"
  "assign ''__proto__'' Passed [(''b'', Pending)] = [(''b'', Pending)]"
  "assign ''7'' Pending [(''10'', Passed), (''b'', Passed)]
     = [(''7'', Pending), (''10'', Passed), (''b'', Passed)]"
  "assign ''07'' Pending [(''10'', Passed), (''b'', Passed)]
     = [(''10'', Passed), (''b'', Passed), (''07'', Pending)]"
  by code_simp+

lemma firstChallenger_assign_challenge:
  "k \<in> fst ` set rs \<Longrightarrow> no_challenge_mark rs \<Longrightarrow> firstChallenger (assign k Challenged rs) = Some k"
  unfolding assign_own
  by (induction rs) (auto simp: firstChallenger_def no_challenge_mark_def)

lemma no_challenge_mark_update:
  "no_challenge_mark rs \<Longrightarrow> v \<noteq> Challenged \<Longrightarrow> no_challenge_mark (update_entry k v rs)"
  by (induction rs) (auto simp: no_challenge_mark_def)

lemma no_challenge_mark_assign:
  "no_challenge_mark rs \<Longrightarrow> v \<noteq> Challenged \<Longrightarrow> no_challenge_mark (assign k v rs)"
  by (auto simp: assign_def no_challenge_mark_update) (auto simp: no_challenge_mark_def list_all_iff)

lemma firstChallenger_none: "no_challenge_mark rs \<Longrightarrow> firstChallenger rs = None"
  by (auto simp: firstChallenger_def no_challenge_mark_def find_None_iff list_all_iff)

lemma vote_simps [simp]:
  "vote ''pass'' = Some Passed" "vote ''challenge'' = Some Challenged"
  by (simp_all add: vote_def)

lemma truthy_Some [simp]: "truthy (Some k) = (k \<noteq> [])" "truthy None = False"
  by (simp_all add: truthy_def)

section \<open>Steal\<close>

lemma handleLoseInfluence_ok:
  assumes "Some k = playerId pa" and "fst (loseInfluence g (Some k) (p_cardIndex pl))"
  shows "handleLoseInfluence g pa k ''loseInfluence'' pl
         = Inr (continueAfterLoseInfluence
                  ((snd (loseInfluence g (Some k) (p_cardIndex pl)))\<lparr>pendingAction := None\<rparr>)
                  (continuation pa))"
  using assms by (cases "loseInfluence g (Some k) (p_cardIndex pl)") (simp add: handleLoseInfluence_def)

lemma handleLoseInfluence_rejected:
  assumes "\<not> fst (loseInfluence g (Some k) (p_cardIndex pl))"
  shows "handleLoseInfluence g pa k rt pl = Inr (result g [])"
proof -
  obtain ok g1 where r: "loseInfluence g (Some k) (p_cardIndex pl) = (ok, g1)"
    by (cases "loseInfluence g (Some k) (p_cardIndex pl)")
  with assms have "\<not> ok" by simp
  with r loseInfluence_False[of g "Some k" "p_cardIndex pl" g1] show ?thesis
    by (auto simp: handleLoseInfluence_def)
qed



section \<open>Hands\<close>

lemma hand_of_cong: "players g' = players g \<Longrightarrow> hand_of g' = hand_of g"
  by (simp add: hand_of_def getPlayer_def fun_eq_iff)

lemma hand_of_simple [simp]:
  "hand_of (push_log m g) = hand_of g"
  "hand_of (snd (result g ps)) = hand_of g"
  "hand_of (beginLoseInfluence g p r c) = hand_of g"
  "hand_of (mark g pa k v) = hand_of g"
  by (rule hand_of_cong, simp)+

lemma hand_of_update_coins [simp]:
  "hand_of (update_player i (\<lambda>p. p\<lparr>coins := h (coins p)\<rparr>) g) = hand_of g"
  by (simp add: hand_of_def getPlayer_update_player option.map_comp comp_def fun_eq_iff)

section \<open>Revealed cards stay revealed\<close>

lemma hand_kept_refl [simp]: "hand_kept cs cs"
  by (simp add: hand_kept_def list_all2_same)

lemma hand_kept_trans: "hand_kept a b \<Longrightarrow> hand_kept b c \<Longrightarrow> hand_kept a c"
  unfolding hand_kept_def
  by (erule (1) list_all2_trans[rotated]) simp

lemma hand_kept_update:
  assumes "i < length cs \<Longrightarrow> revealed (cs ! i) \<Longrightarrow> revealed c"
  shows "hand_kept cs (cs[i := c])"
  unfolding hand_kept_def list_all2_conv_all_nth
proof (intro conjI allI impI)
  show "length cs = length (cs[i := c])" by simp
next
  fix j assume "j < length cs" "revealed (cs ! j)"
  then show "revealed (cs[i := c] ! j)" using assms by (cases "j = i") simp_all
qed

lemma player_kept_refl [simp]: "player_kept p p"
  by (simp add: player_kept_def)

lemma player_kept_trans: "player_kept a b \<Longrightarrow> player_kept b c \<Longrightarrow> player_kept a c"
  by (auto simp: player_kept_def intro: hand_kept_trans)

lemma reveals_kept_refl [simp]: "reveals_kept ps ps"
  by (simp add: reveals_kept_def list_all2_same)

lemma reveals_kept_trans: "reveals_kept a b \<Longrightarrow> reveals_kept b c \<Longrightarrow> reveals_kept a c"
  unfolding reveals_kept_def
  by (erule (1) list_all2_trans[rotated]) (rule player_kept_trans)

lemma reveals_kept_map_first_self:
  "(\<And>x. find P ps = Some x \<Longrightarrow> player_kept x (f x)) \<Longrightarrow> reveals_kept ps (map_first P f ps)"
proof (induction ps)
  case Nil
  then show ?case by (simp add: reveals_kept_def)
next
  case (Cons p ps)
  show ?case
  proof (cases "P p")
    case True
    then have "player_kept p (f p)" using Cons.prems by simp
    moreover have "list_all2 player_kept ps ps"
      using reveals_kept_refl[of ps] unfolding reveals_kept_def .
    ultimately show ?thesis using True by (simp add: reveals_kept_def)
  next
    case False
    then have "reveals_kept ps (map_first P f ps)" using Cons by simp
    with False show ?thesis by (simp add: reveals_kept_def)
  qed
qed

lemma reveals_kept_map_first:
  "reveals_kept ps0 ps \<Longrightarrow> (\<And>x. find P ps = Some x \<Longrightarrow> player_kept x (f x))
   \<Longrightarrow> reveals_kept ps0 (map_first P f ps)"
  using reveals_kept_map_first_self reveals_kept_trans by blast

lemma reveals_kept_coins:
  "reveals_kept ps0 ps \<Longrightarrow> reveals_kept ps0 (map_first P (\<lambda>p. p\<lparr>coins := h p\<rparr>) ps)"
  by (rule reveals_kept_map_first) (simp_all add: player_kept_def)

lemma reveals_kept_revealAndRedraw:
  assumes "reveals_kept ps0 (players g)"
  shows "reveals_kept ps0 (players (snd (revealAndRedraw g i r)))"
proof -
  consider (a) "getPlayer g i = None"
    | (b) p where "getPlayer g i = Some p"
        "findIndex (\<lambda>c. \<not> revealed c \<and> role c = r) (influence p) = None"
    | (c) p idx where "getPlayer g i = Some p"
        "findIndex (\<lambda>c. \<not> revealed c \<and> role c = r) (influence p) = Some idx"
    by (cases "getPlayer g i") auto
  then show ?thesis
  proof cases
    case a
    then show ?thesis using assms by (simp add: revealAndRedraw_fail)
  next
    case b
    then show ?thesis using assms by (simp add: revealAndRedraw_fail)
  next
    case c
    from revealAndRedraw_players[OF c] obtain d where
      pl: "players (snd (revealAndRedraw g i r))
         = map_first (\<lambda>q. Some (pid q) = i)
             (\<lambda>q. q\<lparr>influence := (influence q)[idx := \<lparr>role = d, revealed = False\<rparr>]\<rparr>) (players g)"
      by auto
    have un: "\<not> revealed (influence p ! idx)" using findIndex_Some[OF c(2)] by simp
    show ?thesis
      unfolding pl
    proof (rule reveals_kept_map_first[OF assms])
      fix x assume "find (\<lambda>q. Some (pid q) = i) (players g) = Some x"
      then have "x = p" using c(1) by (simp add: getPlayer_def)
      then show "player_kept x (x\<lparr>influence := (influence x)[idx := \<lparr>role = d, revealed = False\<rparr>]\<rparr>)"
        using un by (auto simp: player_kept_def intro: hand_kept_update)
    qed
  qed
qed

lemma reveals_kept_loseInfluence:
  assumes "reveals_kept ps0 (players g)"
  shows "reveals_kept ps0 (players (snd (loseInfluence g i ci)))"
proof -
  obtain ok g1 where r: "loseInfluence g i ci = (ok, g1)" by (cases "loseInfluence g i ci")
  show ?thesis
  proof (cases ok)
    case False
    with r loseInfluence_False[of g i ci g1] assms show ?thesis by simp
  next
    case True
    with r have "loseInfluence g i ci = (True, g1)" by simp
    from loseInfluence_True[OF this] obtain p :: player and k where
      "g1 = checkWin (push_log (name p @ '' loses influence ('' @ role (influence p ! k) @ '' revealed).'')
                          (set_card i k ((influence p ! k)\<lparr>revealed := True\<rparr>) g))"
      by blast
    then have "players (snd (loseInfluence g i ci))
        = map_first (\<lambda>q. Some (pid q) = i)
            (\<lambda>q. q\<lparr>influence := (influence q)[k := (influence p ! k)\<lparr>revealed := True\<rparr>]\<rparr>) (players g)"
      using r by simp
    moreover have "reveals_kept ps0 (map_first (\<lambda>q. Some (pid q) = i)
            (\<lambda>q. q\<lparr>influence := (influence q)[k := (influence p ! k)\<lparr>revealed := True\<rparr>]\<rparr>) (players g))"
      by (rule reveals_kept_map_first[OF assms]) (auto simp: player_kept_def intro: hand_kept_update)
    ultimately show ?thesis by simp
  qed
qed

lemma reveals_kept_applySteal:
  assumes "reveals_kept ps0 (players g)"
  shows "reveals_kept ps0 (players (applySteal g a t))"
proof (cases "getPlayer g a")
  case None
  then show ?thesis using assms by (simp add: applySteal_def)
next
  case (Some actor)
  show ?thesis
  proof (cases "getPlayer g t")
    case None
    with Some show ?thesis using assms by (simp add: applySteal_def)
  next
    case (Some target)
    with \<open>getPlayer g a = Some actor\<close> show ?thesis
      using assms by (simp add: applySteal_def Let_def reveals_kept_coins)
  qed
qed

lemma unrevealed_slots_set:
  "set (unrevealed_slots cs) = {i. i < length cs \<and> \<not> revealed (cs ! i)}"
  by (auto simp: unrevealed_slots_def)

lemma list_all2_update_right:
  assumes "list_all2 R xs ys" and "i < length xs \<Longrightarrow> R (xs ! i) y"
  shows "list_all2 R xs (ys[i := y])"
  unfolding list_all2_conv_all_nth
proof (intro conjI allI impI)
  show "length xs = length (ys[i := y])" using assms(1) by (simp add: list_all2_lengthD)
next
  fix j assume "j < length xs"
  then show "R (xs ! j) (ys[i := y] ! j)"
    using assms by (cases "j = i") (auto simp: list_all2_conv_all_nth)
qed

lemma hand_kept_fold:
  assumes "hand_kept cs acc" and "\<And>i. i \<in> fst ` set zs \<Longrightarrow> i < length cs \<Longrightarrow> \<not> revealed (cs ! i)"
  shows "hand_kept cs (fold (\<lambda>(i, c) acc. acc[i := \<lparr>role = opt_role c, revealed = False\<rparr>]) zs acc)"
  using assms
proof (induction zs arbitrary: acc)
  case Nil
  then show ?case by simp
next
  case (Cons z zs)
  obtain i c where z: "z = (i, c)" by (cases z)
  have "hand_kept cs (acc[i := \<lparr>role = opt_role c, revealed = False\<rparr>])"
    using Cons.prems(1) Cons.prems(2)[of i] z
    unfolding hand_kept_def by (intro list_all2_update_right) auto
  moreover have "\<And>j. j \<in> fst ` set zs \<Longrightarrow> j < length cs \<Longrightarrow> \<not> revealed (cs ! j)"
    using Cons.prems(2) by auto
  ultimately show ?case using Cons.IH z by simp
qed

lemma hand_kept_replace_slots:
  "hand_kept cs (replace_slots cs (unrevealed_slots cs) chosen)"
  unfolding replace_slots_def
proof (rule hand_kept_fold)
  show "hand_kept cs cs" by simp
next
  fix i assume "i \<in> fst ` set (zip (unrevealed_slots cs) chosen)"
  then have "i \<in> set (unrevealed_slots cs)" by (auto dest: set_zip_leftD)
  then show "\<not> revealed (cs ! i)" by (simp add: unrevealed_slots_set)
qed

lemma startExchangeChoice_players [simp]: "players (snd (startExchangeChoice g a)) = players g"
proof (cases "getPlayer g a")
  case None
  then show ?thesis by (simp add: startExchangeChoice_def)
next
  case (Some actor)
  show ?thesis
  proof (cases "length (unrevealed_slots (influence actor)) = 0")
    case True
    with Some show ?thesis by (simp add: startExchangeChoice_def)
  next
    case False
    obtain d1 g1 where d1: "draw g = (d1, g1)" by (cases "draw g")
    obtain d2 g2 where d2: "draw g1 = (d2, g2)" by (cases "draw g1")
    have "players g1 = players g" using draw_fields(1)[of g] d1 by simp
    moreover have "players g2 = players g1" using draw_fields(1)[of g1] d2 by simp
    ultimately show ?thesis using Some False d1 d2
      by (simp add: startExchangeChoice_def Let_def)
  qed
qed

lemma reveals_kept_continue:
  assumes "reveals_kept ps0 (players g)"
  shows "reveals_kept ps0 (players (snd (continueAfterLoseInfluence g c)))"
  using assms
  by (auto simp: continueAfterLoseInfluence_def reveals_kept_applySteal
           split: option.splits cont.splits)

lemma reveals_kept_resolveAction:
  "reveals_kept (players g) (players (snd (resolveAction g aid ty tid)))"
  by (auto simp: resolveAction_def resolve_coup_def resolve_assassinate_def resolve_steal_def
                 Let_def reveals_kept_coins
           split: option.splits)

lemmas reveals_kept_steps =
  reveals_kept_coins reveals_kept_revealAndRedraw reveals_kept_loseInfluence
  reveals_kept_applySteal reveals_kept_continue

lemma handleLoseInfluence_cases:
  assumes "handleLoseInfluence g pa k rt pl = Inr x"
  shows "x = result g []
       \<or> (Some k = playerId pa \<and> rt = ''loseInfluence'' \<and> fst (loseInfluence g (Some k) (p_cardIndex pl))
          \<and> x = continueAfterLoseInfluence
                  ((snd (loseInfluence g (Some k) (p_cardIndex pl)))\<lparr>pendingAction := None\<rparr>)
                  (continuation pa))"
proof (cases "fst (loseInfluence g (Some k) (p_cardIndex pl))")
  case False
  from handleLoseInfluence_rejected[OF this, of pa rt] assms show ?thesis by simp
next
  case True
  show ?thesis
  proof (cases "Some k = playerId pa \<and> rt = ''loseInfluence''")
    case False
    with assms show ?thesis by (auto simp: handleLoseInfluence_def split: if_splits)
  next
    case h: True
    then have "Some k = playerId pa" by simp
    from handleLoseInfluence_ok[OF this True] h assms True show ?thesis by simp
  qed
qed

lemma reveals_kept_handleLoseInfluence:
  assumes "handleLoseInfluence g pa k rt pl = Inr x"
  shows "reveals_kept (players g) (players (snd x))"
  using handleLoseInfluence_cases[OF assms]
proof
  assume "x = result g []"
  then show ?thesis by simp
next
  assume h: "Some k = playerId pa \<and> rt = ''loseInfluence'' \<and> fst (loseInfluence g (Some k) (p_cardIndex pl))
          \<and> x = continueAfterLoseInfluence
                  ((snd (loseInfluence g (Some k) (p_cardIndex pl)))\<lparr>pendingAction := None\<rparr>)
                  (continuation pa)"
  have "reveals_kept (players g)
       (players ((snd (loseInfluence g (Some k) (p_cardIndex pl)))\<lparr>pendingAction := None\<rparr>))"
    by (simp add: reveals_kept_loseInfluence)
  with h show ?thesis by (simp add: reveals_kept_continue)
qed

lemma reveals_kept_handleTax:
  "handleTax g pa k rt = Inr x \<Longrightarrow> reveals_kept (players g) (players (snd x))"
  unfolding handleTax_def Let_def
  by (auto split: if_splits option.splits intro!: reveals_kept_steps)

lemma reveals_kept_handleForeignAidBlock:
  "handleForeignAidBlock g pa k rt pl = Inr x \<Longrightarrow> reveals_kept (players g) (players (snd x))"
  unfolding handleForeignAidBlock_def Let_def
  by (auto split: if_splits option.splits intro!: reveals_kept_steps)

lemma reveals_kept_handleForeignAidChallengeBlock:
  "handleForeignAidChallengeBlock g pa k rt = Inr x \<Longrightarrow> reveals_kept (players g) (players (snd x))"
  unfolding handleForeignAidChallengeBlock_def Let_def
  by (auto split: if_splits option.splits intro!: reveals_kept_steps)

lemma reveals_kept_handleAssassinateChallenge:
  "handleAssassinateChallenge g pa k rt = Inr x \<Longrightarrow> reveals_kept (players g) (players (snd x))"
  unfolding handleAssassinateChallenge_def Let_def
  by (auto split: if_splits option.splits intro!: reveals_kept_steps)

lemma reveals_kept_handleAssassinateBlock:
  "handleAssassinateBlock g pa k rt pl = Inr x \<Longrightarrow> reveals_kept (players g) (players (snd x))"
  unfolding handleAssassinateBlock_def Let_def
  by (auto split: if_splits option.splits intro!: reveals_kept_steps)

lemma reveals_kept_handleAssassinateChallengeBlock:
  "handleAssassinateChallengeBlock g pa k rt = Inr x \<Longrightarrow> reveals_kept (players g) (players (snd x))"
  unfolding handleAssassinateChallengeBlock_def Let_def
  by (auto split: if_splits option.splits intro!: reveals_kept_steps)

lemma reveals_kept_handleStealChallenge:
  "handleStealChallenge g pa k rt = Inr x \<Longrightarrow> reveals_kept (players g) (players (snd x))"
  unfolding handleStealChallenge_def Let_def
  by (auto split: if_splits option.splits intro!: reveals_kept_steps)

lemma reveals_kept_handleStealBlock:
  "handleStealBlock g pa k rt pl = Inr x \<Longrightarrow> reveals_kept (players g) (players (snd x))"
  unfolding handleStealBlock_def Let_def
  by (auto split: if_splits option.splits intro!: reveals_kept_steps)

lemma reveals_kept_handleStealChallengeBlock:
  "handleStealChallengeBlock g pa k rt = Inr x \<Longrightarrow> reveals_kept (players g) (players (snd x))"
  unfolding handleStealChallengeBlock_def Let_def
  by (auto split: if_splits option.splits intro!: reveals_kept_steps)

lemma reveals_kept_handleExchangeChallenge:
  "handleExchangeChallenge g pa k rt = Inr x \<Longrightarrow> reveals_kept (players g) (players (snd x))"
  unfolding handleExchangeChallenge_def Let_def
  by (auto split: if_splits option.splits intro!: reveals_kept_steps)

lemma handleExchangeChoice_cases:
  assumes "handleExchangeChoice g pa k rt pl = Inr x"
  obtains (rejected) "x = result g []"
    | (accepted) sec actor where "Some k = actorId pa" "rt = ''exchangeChoice''"
        "private_exchange g (Some k) = Some sec" "getPlayer g (Some k) = Some actor"
        "length (remdups (case p_keep pl of None \<Rightarrow> [] | Some ks \<Rightarrow> ks)) = sec_keepCount sec"
        "length (filter (\<lambda>e. opt_id e \<in> set (case p_keep pl of None \<Rightarrow> [] | Some ks \<Rightarrow> ks)) (options sec))
           = sec_keepCount sec"
        "length (unrevealed_slots (influence actor)) = sec_keepCount sec"
        "x = finishTurn
               (push_log (name actor @ '' completes Exchange.'')
                  ((returnToDeck
                      (map opt_role (filter (\<lambda>e. opt_id e \<notin> set (case p_keep pl of None \<Rightarrow> [] | Some ks \<Rightarrow> ks))
                                       (options sec)))
                      (update_player (Some k)
                         (\<lambda>p. p\<lparr>influence := replace_slots (influence p) (unrevealed_slots (influence actor))
                                   (filter (\<lambda>e. opt_id e \<in> set (case p_keep pl of None \<Rightarrow> [] | Some ks \<Rightarrow> ks))
                                      (options sec))\<rparr>) g))
                   \<lparr>private_exchange := (private_exchange g)(Some k := None)\<rparr>))"
proof (cases "Some k = actorId pa \<and> rt = ''exchangeChoice''")
  case False
  with assms have "x = result g []" by (auto simp: handleExchangeChoice_def split: if_splits)
  then show ?thesis by (rule rejected)
next
  case head: True
  show ?thesis
  proof (cases "private_exchange g (Some k)")
    case None
    with assms head have "x = result g []" by (simp add: handleExchangeChoice_def)
    then show ?thesis by (rule rejected)
  next
    case (Some sec)
    let ?keep = "case p_keep pl of None \<Rightarrow> [] | Some ks \<Rightarrow> ks"
    let ?chosen = "filter (\<lambda>e. opt_id e \<in> set ?keep) (options sec)"
    show ?thesis
    proof (cases "length (remdups ?keep) = sec_keepCount sec \<and> length ?chosen = sec_keepCount sec")
      case False
      with assms head Some have "x = result g []"
        by (auto simp: handleExchangeChoice_def Let_def split: if_splits)
      then show ?thesis by (rule rejected)
    next
      case sizes: True
      show ?thesis
      proof (cases "getPlayer g (Some k)")
        case None
        with assms head Some sizes have "x = result g []"
          by (simp add: handleExchangeChoice_def Let_def)
        then show ?thesis by (rule rejected)
      next
        case actor: (Some actor)
        show ?thesis
        proof (cases "length (unrevealed_slots (influence actor)) = sec_keepCount sec")
          case False
          with assms head Some sizes actor have "x = result g []"
            by (simp add: handleExchangeChoice_def Let_def)
          then show ?thesis by (rule rejected)
        next
          case True
          with assms head Some sizes actor show ?thesis
            by (intro accepted[of sec actor]) (simp_all add: handleExchangeChoice_def Let_def)
        qed
      qed
    qed
  qed
qed

lemma reveals_kept_handleExchangeChoice:
  assumes "handleExchangeChoice g pa k rt pl = Inr x"
  shows "reveals_kept (players g) (players (snd x))"
  using assms
proof (cases rule: handleExchangeChoice_cases)
  case rejected
  then show ?thesis by simp
next
  case (accepted sec actor)
  have "reveals_kept (players g)
     (map_first (\<lambda>p. Some (pid p) = Some k)
        (\<lambda>p. p\<lparr>influence := replace_slots (influence p) (unrevealed_slots (influence actor)) chosen\<rparr>)
        (players g))" for chosen
  proof (rule reveals_kept_map_first)
    show "reveals_kept (players g) (players g)" by simp
  next
    fix y assume "find (\<lambda>p. Some (pid p) = Some k) (players g) = Some y"
    then have "y = actor" using accepted(4) by (simp add: getPlayer_def)
    then show "player_kept y
        (y\<lparr>influence := replace_slots (influence y) (unrevealed_slots (influence actor)) chosen\<rparr>)"
      by (simp add: player_kept_def hand_kept_replace_slots)
  qed
  then show ?thesis unfolding accepted(8) by simp
qed

lemma handleResponse_cases:
  assumes "handleResponse g k rt pl = Inr x"
  obtains (idle) "x = result g []"
    | (lose) pa where "pendingAction g = Some pa" "ptype pa = LoseInfluenceT"
        "handleLoseInfluence g pa k rt pl = Inr x"
    | (tax) pa where "pendingAction g = Some pa" "ptype pa = TaxT" "stage pa = AwaitingChallenge"
        "handleTax g pa k rt = Inr x"
    | (aid_block) pa where "pendingAction g = Some pa" "ptype pa = ForeignAidT" "stage pa = AwaitingBlock"
        "handleForeignAidBlock g pa k rt pl = Inr x"
    | (aid_challenge) pa where "pendingAction g = Some pa" "ptype pa = ForeignAidT"
        "stage pa = AwaitingChallengeBlock" "handleForeignAidChallengeBlock g pa k rt = Inr x"
    | (ass_challenge) pa where "pendingAction g = Some pa" "ptype pa = AssassinateT"
        "stage pa = AwaitingChallenge" "handleAssassinateChallenge g pa k rt = Inr x"
    | (ass_block) pa where "pendingAction g = Some pa" "ptype pa = AssassinateT"
        "stage pa = AwaitingBlock" "handleAssassinateBlock g pa k rt pl = Inr x"
    | (ass_challenge_block) pa where "pendingAction g = Some pa" "ptype pa = AssassinateT"
        "stage pa = AwaitingChallengeBlock" "handleAssassinateChallengeBlock g pa k rt = Inr x"
    | (steal_challenge) pa where "pendingAction g = Some pa" "ptype pa = StealT"
        "stage pa = AwaitingChallenge" "handleStealChallenge g pa k rt = Inr x"
    | (steal_block) pa where "pendingAction g = Some pa" "ptype pa = StealT"
        "stage pa = AwaitingBlock" "handleStealBlock g pa k rt pl = Inr x"
    | (steal_challenge_block) pa where "pendingAction g = Some pa" "ptype pa = StealT"
        "stage pa = AwaitingChallengeBlock" "handleStealChallengeBlock g pa k rt = Inr x"
    | (exch_challenge) pa where "pendingAction g = Some pa" "ptype pa = ExchangeT"
        "stage pa = AwaitingChallenge" "handleExchangeChallenge g pa k rt = Inr x"
    | (exch_choice) pa where "pendingAction g = Some pa" "ptype pa = ExchangeT"
        "stage pa = AwaitingChoice" "handleExchangeChoice g pa k rt pl = Inr x"
proof (cases "pendingAction g")
  case None
  with assms have "x = result g []" by (simp add: handleResponse_def)
  then show ?thesis by (rule idle)
next
  case (Some pa)
  show ?thesis
  proof (cases "ptype pa")
    case LoseInfluenceT
    with assms Some show ?thesis by (intro lose[of pa]) (simp_all add: handleResponse_def)
  next
    case TaxT
    with assms Some show ?thesis
      by (cases "stage pa") (auto simp: handleResponse_def intro: idle tax[of pa])
  next
    case ForeignAidT
    with assms Some show ?thesis
      by (cases "stage pa")
         (auto simp: handleResponse_def intro: idle aid_block[of pa] aid_challenge[of pa])
  next
    case AssassinateT
    with assms Some show ?thesis
      by (cases "stage pa")
         (auto simp: handleResponse_def
               intro: idle ass_challenge[of pa] ass_block[of pa] ass_challenge_block[of pa])
  next
    case StealT
    with assms Some show ?thesis
      by (cases "stage pa")
         (auto simp: handleResponse_def
               intro: idle steal_challenge[of pa] steal_block[of pa] steal_challenge_block[of pa])
  next
    case ExchangeT
    with assms Some show ?thesis
      by (cases "stage pa")
         (auto simp: handleResponse_def intro: idle exch_challenge[of pa] exch_choice[of pa])
  qed
qed

lemma reveals_kept_handleResponse:
  assumes "handleResponse g k rt pl = Inr x"
  shows "reveals_kept (players g) (players (snd x))"
  using assms
proof (cases rule: handleResponse_cases)
  case idle
  then show ?thesis by simp
qed (erule reveals_kept_handleLoseInfluence reveals_kept_handleTax
                   reveals_kept_handleForeignAidBlock reveals_kept_handleForeignAidChallengeBlock
                   reveals_kept_handleAssassinateChallenge reveals_kept_handleAssassinateBlock
                   reveals_kept_handleAssassinateChallengeBlock reveals_kept_handleStealChallenge
                   reveals_kept_handleStealBlock reveals_kept_handleStealChallengeBlock
                   reveals_kept_handleExchangeChallenge reveals_kept_handleExchangeChoice)+

lemma reveals_keptD:
  assumes "reveals_kept ps ps'" and "n < length ps" and "j < length (influence (ps ! n))"
    and "revealed (influence (ps ! n) ! j)"
  shows "length ps' = length ps \<and> pid (ps' ! n) = pid (ps ! n)
       \<and> length (influence (ps' ! n)) = length (influence (ps ! n))
       \<and> revealed (influence (ps' ! n) ! j)"
proof -
  from assms(1) have len: "length ps' = length ps"
    by (simp add: reveals_kept_def list_all2_lengthD)
  from assms(1,2) have pk: "player_kept (ps ! n) (ps' ! n)"
    by (simp add: reveals_kept_def list_all2_conv_all_nth)
  then have "list_all2 (\<lambda>c c'. revealed c \<longrightarrow> revealed c') (influence (ps ! n)) (influence (ps' ! n))"
    by (simp add: player_kept_def hand_kept_def)
  then have "length (influence (ps' ! n)) = length (influence (ps ! n))"
    "revealed (influence (ps' ! n) ! j)"
    using assms(3,4) by (auto simp: list_all2_conv_all_nth)
  with len pk show ?thesis by (simp add: player_kept_def)
qed

text \<open>
  C8. Across every operation of the engine (\<open>resolveAction\<close>, \<open>handleResponse\<close>,
  \<open>revealAndRedraw\<close>, \<open>loseInfluence\<close>), for the player at any position \<open>n\<close> and any
  slot \<open>j\<close> of its hand: if the card in the slot is revealed before the operation, then
  after it the same player is at position \<open>n\<close>, its hand has the same number of slots, and
  the card in slot \<open>j\<close> is revealed. (\<open>revealAndRedraw\<close> puts its unrevealed replacement
  into a slot that was unrevealed before the call.)
\<close>

theorem revealed_cards_stay_revealed:
  assumes "engine_step g g'" and "n < length (players g)"
    and "j < length (influence (players g ! n))" and "revealed (influence (players g ! n) ! j)"
  shows "length (players g') = length (players g) \<and> pid (players g' ! n) = pid (players g ! n)
       \<and> length (influence (players g' ! n)) = length (influence (players g ! n))
       \<and> revealed (influence (players g' ! n) ! j)"
proof -
  from assms(1) have "reveals_kept (players g) (players g')"
  proof cases
    case (step_action aid actionType tid)
    then show ?thesis by (simp add: reveals_kept_resolveAction)
  next
    case (step_response k responseType pl out)
    from reveals_kept_handleResponse[OF this] show ?thesis by simp
  next
    case (step_reveal i r)
    then show ?thesis by (simp add: reveals_kept_revealAndRedraw)
  next
    case (step_lose i cardIndex)
    then show ?thesis by (simp add: reveals_kept_loseInfluence)
  qed
  from reveals_keptD[OF this assms(2-4)] show ?thesis .
qed

theorem revealed_cards_stay_revealed_witness:
  "engine_step demo_game (snd (revealAndRedraw demo_game (Some ''a'') ''Duke''))
   \<and> (0::nat) < length (players demo_game) \<and> (1::nat) < length (influence (players demo_game ! 0))
   \<and> revealed (influence (players demo_game ! 0) ! 1)
   \<and> revealed (influence (players (snd (revealAndRedraw demo_game (Some ''a'') ''Duke'')) ! 0) ! 1)"
proof -
  have s: "engine_step demo_game (snd (revealAndRedraw demo_game (Some ''a'') ''Duke''))"
    by (rule step_reveal)
  have h: "(0::nat) < length (players demo_game)" "(1::nat) < length (influence (players demo_game ! 0))"
    "revealed (influence (players demo_game ! 0) ! 1)"
    by (simp_all add: demo_game_def demo_players_def)
  from revealed_cards_stay_revealed [OF s h] s h show ?thesis by simp
qed

section \<open>Replacing the face-down cards of a hand\<close>

lemma length_filter_ids:
  assumes "distinct (map f xs)"
  shows "length (filter (\<lambda>e. f e \<in> S) xs) = card (S \<inter> set (map f xs))"
proof -
  have "length (filter (\<lambda>e. f e \<in> S) xs) = length (filter (\<lambda>y. y \<in> S) (map f xs))"
    by (simp add: filter_map comp_def)
  also have "\<dots> = card ({y. y \<in> S} \<inter> set (map f xs))"
    using assms by (rule distinct_length_filter)
  finally show ?thesis by simp
qed

lemma chosen_all_known:
  assumes "distinct (map opt_id opts)" and "set keep \<subseteq> set (map opt_id opts)"
  shows "length (filter (\<lambda>e. opt_id e \<in> set keep) opts) = length (remdups keep)"
proof -
  have "set keep \<inter> set (map opt_id opts) = set keep" using assms(2) by auto
  then show ?thesis
    using length_filter_ids[OF assms(1), of "set keep"] by (simp add: length_remdups_card_conv)
qed

lemma chosen_some_unknown:
  assumes "distinct (map opt_id opts)" and "\<not> set keep \<subseteq> set (map opt_id opts)"
  shows "length (filter (\<lambda>e. opt_id e \<in> set keep) opts) < length (remdups keep)"
proof -
  have "set keep \<inter> set (map opt_id opts) \<subset> set keep" using assms(2) by auto
  then have "card (set keep \<inter> set (map opt_id opts)) < card (set keep)"
    by (intro psubset_card_mono) simp_all
  then show ?thesis
    using length_filter_ids[OF assms(1), of "set keep"] by (simp add: length_remdups_card_conv)
qed

lemma fold_update_length [simp]:
  "length (fold (\<lambda>(i, c) acc. acc[i := h c]) zs acc) = length acc"
  by (induction zs arbitrary: acc) (auto split: prod.splits)

lemma fold_update_other:
  "i \<notin> fst ` set zs \<Longrightarrow> fold (\<lambda>(i, c) acc. acc[i := h c]) zs acc ! i = acc ! i"
  by (induction zs arbitrary: acc) (auto split: prod.splits)

lemma fold_update_hit:
  assumes "distinct (map fst zs)" and "j < length zs" and "fst (zs ! j) < length acc"
  shows "fold (\<lambda>(i, c) acc. acc[i := h c]) zs acc ! fst (zs ! j) = h (snd (zs ! j))"
  using assms
proof (induction zs arbitrary: acc j)
  case Nil
  then show ?case by simp
next
  case (Cons z zs)
  obtain i c where z: "z = (i, c)" by (cases z)
  show ?case
  proof (cases j)
    case 0
    have "i \<notin> fst ` set zs" using Cons.prems(1) z by auto
    then have "fold (\<lambda>(i, c) acc. acc[i := h c]) zs (acc[i := h c]) ! i = (acc[i := h c]) ! i"
      by (rule fold_update_other)
    with 0 z Cons.prems(3) show ?thesis by simp
  next
    case (Suc j')
    with Cons.prems have "distinct (map fst zs)" "j' < length zs" "fst (zs ! j') < length (acc[i := h c])"
      by auto
    from Cons.IH[OF this] Suc z show ?thesis by simp
  qed
qed

lemma unrevealed_slots_distinct [simp]: "distinct (unrevealed_slots cs)"
  by (simp add: unrevealed_slots_def)

lemma replace_slots_length [simp]: "length (replace_slots cs slots chosen) = length cs"
  by (simp add: replace_slots_def)

lemma replace_slots_kept:
  "i \<notin> set slots \<Longrightarrow> replace_slots cs slots chosen ! i = cs ! i"
  unfolding replace_slots_def
  by (rule fold_update_other) (auto dest: set_zip_leftD)

lemma replace_slots_new:
  assumes "distinct slots" and "length chosen = length slots" and "j < length slots"
    and "slots ! j < length cs"
  shows "replace_slots cs slots chosen ! (slots ! j) = \<lparr>role = opt_role (chosen ! j), revealed = False\<rparr>"
proof -
  let ?zs = "zip slots chosen"
  have d: "distinct (map fst ?zs)" using assms(1,2) by simp
  have j: "j < length ?zs" using assms(2,3) by simp
  have "fst (?zs ! j) = slots ! j" "snd (?zs ! j) = chosen ! j" using assms(2,3) by simp_all
  moreover have "fst (?zs ! j) < length cs" using assms(2,3,4) by simp
  ultimately show ?thesis
    unfolding replace_slots_def
    using fold_update_hit[OF d j, of cs "\<lambda>c. \<lparr>role = opt_role c, revealed = False\<rparr>"] by simp
qed

lemma Inr_pair_ex1I:
  "f = Inr x \<Longrightarrow> \<exists>h. P h (snd x) \<Longrightarrow> \<exists>out g' h. f = Inr (out, g') \<and> P h g'"
  by (cases x) auto

lemma hand_of_finishTurn [simp]: "hand_of (snd (finishTurn g)) = hand_of g"
  by (rule hand_of_cong) simp

section \<open>The responders and the choice of an exchange\<close>

lemma initResponders_loop_cong:
  "isAlive g' = isAlive g \<Longrightarrow> initResponders_loop g' e ps rs = initResponders_loop g e ps rs"
  by (induction ps arbitrary: rs) simp_all

lemma initResponders_cong: "players g' = players g \<Longrightarrow> initResponders g' = initResponders g"
  using initResponders_loop_cong[OF isAlive_cong, of g' g]
  by (simp add: initResponders_def fun_eq_iff)

lemma initResponders_push_log [simp]: "initResponders (push_log m g) = initResponders g"
  by (rule initResponders_cong) simp

lemma no_challenge_mark_simps [simp]:
  "no_challenge_mark []"
  "no_challenge_mark (r # rs) = (snd r \<noteq> Challenged \<and> no_challenge_mark rs)"
  by (simp_all add: no_challenge_mark_def)

lemma startExchangeChoice_pending:
  "pendingAction (snd (startExchangeChoice g a))
     = (case getPlayer g a of
          None \<Rightarrow> pendingAction g
        | Some actor \<Rightarrow>
            if unrevealed_slots (influence actor) = [] then None
            else Some ((pending_obj ExchangeT AwaitingChoice)
                        \<lparr>actorId := a, keepCount := Some (length (unrevealed_slots (influence actor)))\<rparr>))"
proof (cases "getPlayer g a")
  case None
  then show ?thesis by (simp add: startExchangeChoice_def)
next
  case (Some actor)
  show ?thesis
  proof (cases "unrevealed_slots (influence actor) = []")
    case True
    with Some show ?thesis by (simp add: startExchangeChoice_def)
  next
    case False
    obtain d1 g1 where d1: "draw g = (d1, g1)" by (cases "draw g")
    obtain d2 g2 where d2: "draw g1 = (d2, g2)" by (cases "draw g1")
    show ?thesis using Some False d1 d2
      by (simp add: startExchangeChoice_def Let_def)
  qed
qed

section \<open>The constructor\<close>

lemma deal_two_alt:
  "deal_two k g =
     add_card k (fst (draw (add_card k (fst (draw g)) (snd (draw g)))))
       (snd (draw (add_card k (fst (draw g)) (snd (draw g)))))"
  by (simp add: deal_two_def add_card_def Let_def case_prod_beta)

lemma map_pid_update: "map pid (ps[k := (ps ! k)\<lparr>influence := cs\<rparr>]) = map pid ps"
proof (cases "k < length ps")
  case True
  then have "(map pid ps)[k := pid (ps ! k)] = map pid ps"
    by (metis list_update_id nth_map)
  then show ?thesis by (simp add: map_update)
next
  case False
  then have "length ps \<le> k" by simp
  then show ?thesis by (simp add: list_update_beyond)
qed

lemma add_card_fields [simp]:
  "map pid (players (add_card k r g)) = map pid (players g)"
  "deck (add_card k r g) = deck g"
  "pendingAction (add_card k r g) = pendingAction g"
  "private_exchange (add_card k r g) = private_exchange g"
  "random_tape (add_card k r g) = random_tape g"
  by (simp_all add: add_card_def map_pid_update)

lemma deal_two_frame:
  "map pid (players (deal_two k g)) = map pid (players g)"
  "pendingAction (deal_two k g) = pendingAction g"
  "private_exchange (deal_two k g) = private_exchange g"
  by (simp_all add: deal_two_alt)

lemma fold_deal_two_frame:
  "map pid (players (fold deal_two ks g)) = map pid (players g)
   \<and> pendingAction (fold deal_two ks g) = pendingAction g
   \<and> private_exchange (fold deal_two ks g) = private_exchange g"
  by (induction ks arbitrary: g) (simp_all add: deal_two_frame)

lemma GameEngine_frame:
  "map pid (players (GameEngine ps tape)) = map fst ps"
  "pendingAction (GameEngine ps tape) = None"
  "private_exchange (GameEngine ps tape) = Map.empty"
proof -
  obtain d rs where m: "makeDeck tape = (d, rs)" by (cases "makeDeck tape")
  let ?g0 = "\<lparr>players = map (\<lambda>(i, n). \<lparr>pid = i, name = n, coins = 2, influence = []\<rparr>) ps,
               deck = d, log = [], turnIndex = 0, pendingAction = None,
               gameOver = False, winnerId = None, private_exchange = Map.empty,
               random_tape = rs\<rparr>"
  have eq: "GameEngine ps tape
        = announce_turn (push_log ''Game started. Each player has 2 influence and 2 coins.''
            (fold deal_two [0 ..< length ps] ?g0))"
    using m by (simp add: GameEngine_def Let_def)
  have "map pid (players ?g0) = map fst ps" by (simp add: comp_def case_prod_beta)
  then show "map pid (players (GameEngine ps tape)) = map fst ps"
    unfolding eq using fold_deal_two_frame[of "[0 ..< length ps]" ?g0] by simp
  show "pendingAction (GameEngine ps tape) = None"
    unfolding eq using fold_deal_two_frame[of "[0 ..< length ps]" ?g0] by simp
  show "private_exchange (GameEngine ps tape) = Map.empty"
    unfolding eq using fold_deal_two_frame[of "[0 ..< length ps]" ?g0] by simp
qed

lemma getStateFor_snd: "snd (getStateFor g v) = snd (currentPlayer g)"
  by (simp add: getStateFor_def split: prod.splits)

section \<open>A fresh game\<close>

lemma demo_fresh_current: "map_option pid (fst (currentPlayer demo_fresh)) = Some ''a''"
  unfolding demo_fresh_def by code_simp

lemma demo_fresh_reachable: "reachable demo_fresh"
  unfolding demo_fresh_def by (rule reachable.start)

section \<open>Conservation of the cards\<close>

lemma roles_partition:
  "mset (map role cs)
     = mset (map role (filter (\<lambda>c. \<not> revealed c) cs)) + mset (map role (filter revealed cs))"
  by (induction cs) simp_all

lemma all_cards_split:
  "mset (all_cards g) = mset (deck g) + mset (held_roles g) + mset (revealed_roles g)"
proof -
  have "mset (concat (map hand_roles ps))
      = mset (concat (map (\<lambda>p. map role (filter (\<lambda>c. \<not> revealed c) (influence p))) ps))
        + mset (concat (map (\<lambda>p. map role (filter revealed (influence p))) ps))" for ps
  proof (induction ps)
    case Nil
    show ?case by simp
  next
    case (Cons p ps)
    from Cons roles_partition[of "influence p"] show ?case by (simp add: hand_roles_def)
  qed
  then show ?thesis by (simp add: all_cards_def held_roles_def revealed_roles_def)
qed

text \<open>Updating the first player that matches moves that player's cards only.\<close>

lemma hands_map_first:
  assumes "find P ps = Some y"
  shows "mset (concat (map hand_roles (map_first P f ps))) + mset (hand_roles y)
       = mset (concat (map hand_roles ps)) + mset (hand_roles (f y))"
  using assms by (induction ps) (auto split: if_splits)

lemma map_first_absent: "find P ps = None \<Longrightarrow> map_first P f ps = ps"
  by (induction ps) (auto split: if_splits)

lemma map_map_first_same:
  assumes "\<And>x. h (f x) = h x"
  shows "map h (map_first P f ps) = map h ps"
  by (induction ps) (simp_all add: assms)

lemma roles_update:
  assumes "k < length cs"
  shows "add_mset (role (cs ! k)) (mset (map role (cs[k := c]))) = add_mset (role c) (mset (map role cs))"
proof -
  define M where "M = mset (map role cs)"
  define x where "x = role (cs ! k)"
  have "mset ((map role cs)[k := role c]) = add_mset (role c) (mset (map role cs) - {#map role cs ! k#})"
    using assms by (simp add: mset_update)
  then have a: "mset (map role (cs[k := c])) = add_mset (role c) (M - {#x#})"
    using assms by (simp add: map_update M_def x_def)
  have "x \<in># M" unfolding M_def x_def using assms by (metis length_map nth_map nth_mem_mset)
  then have "add_mset x (M - {#x#}) = M" by (rule insert_DiffM)
  then have "add_mset x (add_mset (role c) (M - {#x#})) = add_mset (role c) M"
    by (metis add_mset_commute)
  then show ?thesis unfolding a M_def x_def .
qed

lemma roles_flag: "map role (cs[k := (cs ! k)\<lparr>revealed := b\<rparr>]) = map role cs"
proof (cases "k < length cs")
  case True
  then have "(map role cs)[k := role (cs ! k)] = map role cs"
    by (metis list_update_id nth_map)
  then show ?thesis by (simp add: map_update)
next
  case False
  then have "length cs \<le> k" by simp
  then show ?thesis by (simp add: list_update_beyond)
qed

lemma all_cards_cong:
  "deck g' = deck g \<Longrightarrow> map hand_roles (players g') = map hand_roles (players g)
   \<Longrightarrow> all_cards g' = all_cards g"
  by (simp add: all_cards_def)

lemma sized_cong:
  assumes "map hand_roles (players g') = map hand_roles (players g)"
  shows "sized g' = sized g"
proof -
  have l: "map (\<lambda>p. length (influence p)) ps = map length (map hand_roles ps)" for ps :: "player list"
    by (simp add: hand_roles_def)
  have "map (\<lambda>p. length (influence p)) (players g') = map (\<lambda>p. length (influence p)) (players g)"
    unfolding l assms ..
  moreover have "list_all (\<lambda>p. length (influence p) = 2) ps
      = list_all (\<lambda>n. n = 2) (map (\<lambda>p. length (influence p)) ps)" for ps :: "player list"
    by (simp add: list_all_iff)
  moreover have "length (players g') = length (players g)" using assms by (rule map_eq_imp_length_eq)
  ultimately show ?thesis by (simp add: sized_def)
qed

lemma stocked_cong:
  "deck g' = deck g \<Longrightarrow> map hand_roles (players g') = map hand_roles (players g)
   \<Longrightarrow> stocked g' = stocked g"
  using all_cards_cong[of g' g] sized_cong[of g' g] by (simp add: stocked_def)

lemma stocked_frame [simp]:
  "stocked (push_log m g) = stocked g"
  "stocked (g\<lparr>pendingAction := po\<rparr>) = stocked g"
  "stocked (g\<lparr>random_tape := t\<rparr>) = stocked g"
  "stocked (g\<lparr>private_exchange := pe\<rparr>) = stocked g"
  "stocked (mark g pa k v) = stocked g"
  "stocked (beginLoseInfluence g p r c) = stocked g"
  "stocked (snd (result g ps)) = stocked g"
  "stocked (snd (finishTurn g)) = stocked g"
  "stocked (snd (currentPlayer g)) = stocked g"
  "stocked (checkWin g) = stocked g"
  "stocked (update_player i (\<lambda>p. p\<lparr>coins := n p\<rparr>) g) = stocked g"
  by (rule stocked_cong, simp, simp add: map_map_first_same hand_roles_def)+

lemma sized_kept:
  assumes "reveals_kept (players g) (players g')"
  shows "sized g' = sized g"
proof -
  have "list_all2 player_kept ps ps'
      \<Longrightarrow> length ps' = length ps
        \<and> list_all (\<lambda>p. length (influence p) = 2) ps' = list_all (\<lambda>p. length (influence p) = 2) ps"
    for ps ps'
    by (induction rule: list_all2_induct)
       (auto simp: player_kept_def hand_kept_def dest: list_all2_lengthD)
  from this[of "players g" "players g'"] assms show ?thesis
    by (simp add: sized_def reveals_kept_def)
qed

lemma map_map_first_found:
  assumes "find P ps = Some y" and "h (f y) = h y"
  shows "map h (map_first P f ps) = map h ps"
  using assms by (induction ps) (auto split: if_splits)

lemma set_card_flag:
  assumes "getPlayer g i = Some p"
  shows "map hand_roles (players (set_card i k ((influence p ! k)\<lparr>revealed := b\<rparr>) g))
       = map hand_roles (players g)"
proof -
  have "find (\<lambda>q. Some (pid q) = i) (players g) = Some p" using assms by (simp add: getPlayer_def)
  moreover have "hand_roles (p\<lparr>influence := (influence p)[k := (influence p ! k)\<lparr>revealed := b\<rparr>]\<rparr>)
      = hand_roles p"
    by (simp add: hand_roles_def roles_flag)
  ultimately show ?thesis by (simp add: map_map_first_found)
qed

lemma stocked_loseInfluence [simp]: "stocked (snd (loseInfluence g i ci)) = stocked g"
proof -
  obtain ok g1 where r: "loseInfluence g i ci = (ok, g1)" by (cases "loseInfluence g i ci")
  show ?thesis
  proof (cases ok)
    case False
    with r loseInfluence_False[of g i ci g1] show ?thesis by simp
  next
    case True
    with r have "loseInfluence g i ci = (True, g1)" by simp
    from loseInfluence_True[OF this] obtain p :: player and k where
      p: "getPlayer g i = Some p"
      and g1: "g1 = checkWin (push_log (name p @ '' loses influence ('' @ role (influence p ! k)
                                            @ '' revealed).'')
                          (set_card i k ((influence p ! k)\<lparr>revealed := True\<rparr>) g))"
      by blast
    have "stocked (set_card i k ((influence p ! k)\<lparr>revealed := True\<rparr>) g) = stocked g"
      by (rule stocked_cong) (simp, rule set_card_flag[OF p])
    with r g1 show ?thesis by simp
  qed
qed

lemma stocked_applySteal [simp]: "stocked (applySteal g a t) = stocked g"
  by (simp add: applySteal_def Let_def split: option.splits)

lemma cards_revealAndRedraw: "mset (all_cards (snd (revealAndRedraw g i r))) = mset (all_cards g)"
proof -
  consider (a) "getPlayer g i = None"
    | (b) p where "getPlayer g i = Some p"
        "findIndex (\<lambda>c. \<not> revealed c \<and> role c = r) (influence p) = None"
    | (c) p idx where "getPlayer g i = Some p"
        "findIndex (\<lambda>c. \<not> revealed c \<and> role c = r) (influence p) = Some idx"
    by (cases "getPlayer g i") auto
  then show ?thesis
  proof cases
    case a
    then show ?thesis by (simp add: revealAndRedraw_fail)
  next
    case b
    then show ?thesis by (simp add: revealAndRedraw_fail)
  next
    case (c p idx)
    let ?g' = "snd (revealAndRedraw g i r)"
    from revealAndRedraw_players[OF c] obtain d where
      ps: "players ?g' = map_first (\<lambda>q. Some (pid q) = i)
                   (\<lambda>q. q\<lparr>influence := (influence q)[idx := \<lparr>role = d, revealed = False\<rparr>]\<rparr>) (players g)"
      and dk: "add_mset d (mset (deck ?g')) = add_mset r (mset (deck g))"
      by blast
    from findIndex_Some[OF c(2)] have idx: "idx < length (influence p)"
      and rl: "role (influence p ! idx) = r" by simp_all
    have f: "find (\<lambda>q. Some (pid q) = i) (players g) = Some p" using c(1) by (simp add: getPlayer_def)
    define H where "H = mset (concat (map hand_roles (players g)))"
    define H' where "H' = mset (concat (map hand_roles (players ?g')))"
    define D where "D = mset (deck g)"
    define D' where "D' = mset (deck ?g')"
    define R where "R = mset (hand_roles p)"
    define R' where "R' = mset (map role ((influence p)[idx := \<lparr>role = d, revealed = False\<rparr>]))"
    have 1: "H' + R = H + R'"
      unfolding H'_def H_def R_def R'_def ps using hands_map_first[OF f] by (simp add: hand_roles_def)
    have 2: "add_mset r R' = add_mset d R"
      unfolding R_def R'_def hand_roles_def using roles_update[OF idx, of "\<lparr>role = d, revealed = False\<rparr>"] rl
      by simp
    have 3: "add_mset d D' = add_mset r D" unfolding D_def D'_def by (rule dk)
    have "add_mset r (add_mset d (D' + H' + R)) = add_mset d D' + (H + add_mset r R')"
      using 1 by (simp add: ac_simps)
    also have "\<dots> = add_mset r D + (H + add_mset d R)" unfolding 2 3 ..
    also have "\<dots> = add_mset r (add_mset d (D + H + R))" by (simp add: ac_simps)
    finally have "D' + H' = D + H" by simp
    then show ?thesis by (simp add: all_cards_def D_def D'_def H_def H'_def)
  qed
qed

lemma stocked_revealAndRedraw [simp]: "stocked (snd (revealAndRedraw g i r)) = stocked g"
proof -
  have "reveals_kept (players g) (players (snd (revealAndRedraw g i r)))"
    by (rule reveals_kept_revealAndRedraw) simp
  from sized_kept[OF this] show ?thesis by (simp add: stocked_def cards_revealAndRedraw)
qed

lemma conserved_quiet: "\<not> choosing g \<Longrightarrow> conserved g = stocked g"
  by (auto simp: conserved_def stocked_def choosing_def in_flight_def exch_ok_def split: option.splits)

lemma conserved_cong:
  assumes "players g' = players g" and "deck g' = deck g"
    and "pendingAction g' = pendingAction g" and "private_exchange g' = private_exchange g"
  shows "conserved g' = conserved g"
proof -
  have "getPlayer g' = getPlayer g" using assms(1) by (simp add: getPlayer_def fun_eq_iff)
  then show ?thesis using assms
    by (simp add: conserved_def sized_def all_cards_def in_flight_def exch_ok_def
             cong: option.case_cong if_cong)
qed

lemma conserved_result [simp]: "conserved (snd (result g ps)) = conserved g"
  by (rule conserved_cong) simp_all

lemma stocked_deck:
  assumes "stocked g"
  shows "3 \<le> length (deck g)"
proof -
  have "length (concat (map hand_roles ps)) = 2 * length ps"
    if "list_all (\<lambda>p. length (influence p) = 2) ps" for ps
    using that by (induction ps) (simp_all add: hand_roles_def)
  with assms have "length (all_cards g) = length (deck g) + 2 * length (players g)"
    by (simp add: stocked_def sized_def all_cards_def)
  moreover have "length (all_cards g) = 15"
  proof -
    have "size (mset (all_cards g)) = size full_deck" using assms by (simp add: stocked_def)
    then show ?thesis by (simp add: full_deck_def roles_def)
  qed
  moreover have "length (players g) \<le> 6" using assms by (simp add: stocked_def sized_def)
  ultimately show ?thesis by simp
qed

lemma slots_roles:
  "map (\<lambda>i. role (cs ! i)) (unrevealed_slots cs) = map role (filter (\<lambda>c. \<not> revealed c) cs)"
proof -
  have "filter (\<lambda>c. \<not> revealed c) (map ((!) cs) [0 ..< length cs])
      = map ((!) cs) (filter (\<lambda>i. \<not> revealed (cs ! i)) [0 ..< length cs])"
    by (simp add: filter_map comp_def)
  then have "filter (\<lambda>c. \<not> revealed c) cs = map ((!) cs) (unrevealed_slots cs)"
    by (simp add: map_nth unrevealed_slots_def)
  then show ?thesis by (simp add: comp_def)
qed

lemma map_snd_zip_comp: "length xs = length ys \<Longrightarrow> map (f \<circ> snd) (zip xs ys) = map f ys"
  by (metis map_map map_snd_zip)

lemma hand_options_roles:
  "map opt_role (hand_options cs) = map role (filter (\<lambda>c. \<not> revealed c) cs)"
proof -
  have "map opt_role (hand_options cs)
      = map ((\<lambda>i. role (cs ! i)) \<circ> snd) (zip [0 ..< length (unrevealed_slots cs)] (unrevealed_slots cs))"
    by (simp add: hand_options_def comp_def case_prod_beta del: show_nat.simps)
  also have "\<dots> = map (\<lambda>i. role (cs ! i)) (unrevealed_slots cs)"
    by (rule map_snd_zip_comp) simp
  finally show ?thesis by (simp only: slots_roles)
qed

lemma hand_options_source: "filter (\<lambda>e. source e = Drawn) (hand_options cs) = []"
  by (simp add: hand_options_def filter_empty_conv case_prod_beta del: show_nat.simps)

lemma startExchangeChoice_deck:
  assumes "getPlayer g a = Some actor" and "unrevealed_slots (influence actor) \<noteq> []"
  shows "deck (snd (startExchangeChoice g a)) = deck (snd (draw (snd (draw g))))"
proof -
  obtain d1 g1 where d1: "draw g = (d1, g1)" by (cases "draw g")
  obtain d2 g2 where d2: "draw g1 = (d2, g2)" by (cases "draw g1")
  show ?thesis
    using assms d1 d2 by (simp add: startExchangeChoice_def Let_def del: show_nat.simps)
qed

lemma startExchangeChoice_entry:
  assumes "getPlayer g a = Some actor" and "unrevealed_slots (influence actor) \<noteq> []"
  shows "private_exchange (snd (startExchangeChoice g a)) a
       = Some \<lparr>sec_keepCount = length (unrevealed_slots (influence actor)),
               options = hand_options (influence actor) @
                 [\<lparr>opt_id = ''d'' @ show_nat (length (unrevealed_slots (influence actor))),
                   opt_role = fst (draw g), source = Drawn, handIndex = None\<rparr>,
                  \<lparr>opt_id = ''d'' @ show_nat (length (unrevealed_slots (influence actor)) + 1),
                   opt_role = fst (draw (snd (draw g))), source = Drawn, handIndex = None\<rparr>]\<rparr>"
proof -
  obtain d1 g1 where d1: "draw g = (d1, g1)" by (cases "draw g")
  obtain d2 g2 where d2: "draw g1 = (d2, g2)" by (cases "draw g1")
  show ?thesis
    using assms d1 d2
    by (simp add: startExchangeChoice_def Let_def hand_options_def del: show_nat.simps)
qed

lemma startExchangeChoice_secret:
  assumes "getPlayer g a = Some actor" and "unrevealed_slots (influence actor) \<noteq> []"
  shows "\<exists>sec. private_exchange (snd (startExchangeChoice g a)) a = Some sec
          \<and> map opt_role (options sec)
              = map role (filter (\<lambda>c. \<not> revealed c) (influence actor))
                @ [fst (draw g), fst (draw (snd (draw g)))]
          \<and> drawn_cards sec = [fst (draw g), fst (draw (snd (draw g)))]"
  unfolding startExchangeChoice_entry[OF assms]
  by (simp add: drawn_cards_def hand_options_source hand_options_roles del: show_nat.simps)

lemma draw_twice:
  assumes "2 \<le> length (deck g)"
  shows "mset (deck (snd (draw (snd (draw g))))) + {#fst (draw g), fst (draw (snd (draw g)))#}
       = mset (deck g)"
proof -
  have a: "deck g \<noteq> []" using assms by auto
  then have "deck (snd (draw g)) = butlast (deck g)" by (simp add: draw_nonempty)
  then have b: "deck (snd (draw g)) \<noteq> []" using assms by (cases "deck g" rule: rev_cases) auto
  from draw_nonempty_mset[OF a] draw_nonempty_mset[OF b] show ?thesis
    by (metis add_mset_add_single union_mset_add_mset_right)
qed

lemma conserved_start:
  assumes "stocked g" and "\<not> choosing g"
  shows "conserved (snd (startExchangeChoice g a))"
proof (cases "getPlayer g a")
  case None
  then have "startExchangeChoice g a = result g []" by (simp add: startExchangeChoice_def)
  with assms show ?thesis by (simp add: conserved_quiet)
next
  case (Some actor)
  show ?thesis
  proof (cases "unrevealed_slots (influence actor) = []")
    case True
    with Some have "startExchangeChoice g a = finishTurn g" by (simp add: startExchangeChoice_def)
    moreover have "\<not> choosing (snd (finishTurn g))" by (simp add: choosing_def)
    ultimately show ?thesis using assms(1) by (simp add: conserved_quiet)
  next
    case False
    let ?g' = "snd (startExchangeChoice g a)"
    let ?pa = "(pending_obj ExchangeT AwaitingChoice)
                 \<lparr>actorId := a, keepCount := Some (length (unrevealed_slots (influence actor)))\<rparr>"
    from startExchangeChoice_secret[OF Some False] obtain sec where
      sec: "private_exchange ?g' a = Some sec"
      and opts: "map opt_role (options sec)
              = map role (filter (\<lambda>c. \<not> revealed c) (influence actor))
                @ [fst (draw g), fst (draw (snd (draw g)))]"
      and dr: "drawn_cards sec = [fst (draw g), fst (draw (snd (draw g)))]"
      by blast
    have pa: "pendingAction ?g' = Some ?pa" using Some False by (simp add: startExchangeChoice_pending)
    have ch: "is_choice ?pa" "actorId ?pa = a" by (simp_all add: is_choice_def pending_obj_def)
    have gp: "getPlayer ?g' a = Some actor" using Some by (simp add: getPlayer_def)
    have "2 \<le> length (deck g)" using stocked_deck[OF assms(1)] by simp
    from draw_twice[OF this]
    have dk: "mset (deck ?g') + {#fst (draw g), fst (draw (snd (draw g)))#} = mset (deck g)"
      by (simp add: startExchangeChoice_deck[OF Some False])
    have fl: "in_flight ?g' = [fst (draw g), fst (draw (snd (draw g)))]"
      by (simp add: in_flight_def pa ch sec dr)
    have "mset (all_cards ?g') + mset (in_flight ?g')
        = mset (deck ?g') + {#fst (draw g), fst (draw (snd (draw g)))#}
          + mset (concat (map hand_roles (players g)))"
      by (simp add: all_cards_def fl)
    also have "\<dots> = mset (all_cards g)" unfolding dk by (simp add: all_cards_def)
    finally have 1: "mset (all_cards ?g') + mset (in_flight ?g') = full_deck"
      using assms(1) by (simp add: stocked_def)
    have 2: "sized ?g'" using assms(1) by (simp add: stocked_def sized_def)
    have 3: "exch_ok ?g'"
      using opts by (simp add: exch_ok_def pa ch sec gp dr)
    from 1 2 3 show ?thesis by (simp add: conserved_def)
  qed
qed

lemma conserved_continue:
  assumes "stocked g" and "pendingAction g = None"
  shows "conserved (snd (continueAfterLoseInfluence g c))"
proof -
  have q: "\<not> choosing g" using assms(2) by (simp add: choosing_def)
  have "conserved (snd (startExchangeChoice g a))" for a
    using assms(1) q by (rule conserved_start)
  then show ?thesis
    using assms(1)
    by (auto simp: continueAfterLoseInfluence_def conserved_quiet choosing_def is_choice_def
                   pending_obj_def
             split: option.splits cont.splits)
qed

lemma conserved_handleLoseInfluence:
  assumes "stocked g" and "\<not> choosing g" and "handleLoseInfluence g pa k rt pl = Inr x"
  shows "conserved (snd x)"
  using handleLoseInfluence_cases[OF assms(3)]
proof
  assume "x = result g []"
  with assms show ?thesis by (simp add: conserved_quiet)
next
  assume h: "Some k = playerId pa \<and> rt = ''loseInfluence'' \<and> fst (loseInfluence g (Some k) (p_cardIndex pl))
          \<and> x = continueAfterLoseInfluence
                  ((snd (loseInfluence g (Some k) (p_cardIndex pl)))\<lparr>pendingAction := None\<rparr>)
                  (continuation pa)"
  have "conserved (snd (continueAfterLoseInfluence
                  ((snd (loseInfluence g (Some k) (p_cardIndex pl)))\<lparr>pendingAction := None\<rparr>)
                  (continuation pa)))"
    by (rule conserved_continue) (simp_all add: assms(1))
  with h show ?thesis by simp
qed

lemma pending_obj_kind [simp]:
  "ptype (pending_obj t s) = t" "stage (pending_obj t s) = s"
  by (simp_all add: pending_obj_def)

lemma quiet_resolve_coup:
  "stocked g \<Longrightarrow> \<not> choosing g \<Longrightarrow> \<not> choosing (snd (resolve_coup g actor tid)) \<and> stocked (snd (resolve_coup g actor tid))"
  by (simp add: resolve_coup_def Let_def choosing_def is_choice_def split: option.splits)

lemma quiet_resolve_assassinate:
  "stocked g \<Longrightarrow> \<not> choosing g \<Longrightarrow> \<not> choosing (snd (resolve_assassinate g actor tid))
     \<and> stocked (snd (resolve_assassinate g actor tid))"
  by (simp add: resolve_assassinate_def Let_def choosing_def is_choice_def split: option.splits)

lemma quiet_resolve_steal:
  "stocked g \<Longrightarrow> \<not> choosing g \<Longrightarrow> \<not> choosing (snd (resolve_steal g actor tid)) \<and> stocked (snd (resolve_steal g actor tid))"
  by (simp add: resolve_steal_def Let_def choosing_def is_choice_def split: option.splits)

lemma conserved_resolveAction:
  assumes "stocked g" and "\<not> choosing g"
  shows "conserved (snd (resolveAction g aid ty tid))"
proof -
  have "\<not> choosing (snd (resolveAction g aid ty tid)) \<and> stocked (snd (resolveAction g aid ty tid))"
  proof (cases "getPlayer g (Some aid)")
    case None
    with assms show ?thesis by (simp add: resolveAction_def choosing_def)
  next
    case (Some actor)
    have q: "\<not> choosing (snd (result (push_log m g) []))" for m
      using assms(2) by (simp add: choosing_def)
    show ?thesis
      using Some assms(1) q quiet_resolve_coup[OF assms, of actor tid]
        quiet_resolve_assassinate[OF assms, of actor tid] quiet_resolve_steal[OF assms, of actor tid]
      by (simp add: resolveAction_def Let_def choosing_def is_choice_def)
  qed
  then show ?thesis by (simp add: conserved_quiet)
qed

lemma conserved_handleTax:
  assumes "stocked g" and "pendingAction g = Some pa" and "\<not> is_choice pa"
    and "handleTax g pa k rt = Inr x"
  shows "conserved (snd x)"
  using assms unfolding handleTax_def Let_def
  by (auto split: if_splits option.splits simp: conserved_quiet choosing_def is_choice_def)

lemma conserved_handleExchangeChallenge:
  assumes "stocked g" and "pendingAction g = Some pa" and "ptype pa = ExchangeT"
    and "stage pa = AwaitingChallenge"
    and "handleExchangeChallenge g pa k rt = Inr x"
  shows "conserved (snd x)"
proof -
  have "conserved (snd (startExchangeChoice (mark g pa k v) a))" for v a
    by (rule conserved_start) (simp_all add: assms choosing_def is_choice_def)
  then show ?thesis
    using assms unfolding handleExchangeChallenge_def Let_def
    by (auto split: if_splits option.splits simp: conserved_quiet choosing_def is_choice_def)
qed

lemma conserved_handleForeignAidBlock:
  assumes "stocked g" and "pendingAction g = Some pa" and "\<not> is_choice pa"
    and "handleForeignAidBlock g pa k rt pl = Inr x"
  shows "conserved (snd x)"
  using assms unfolding handleForeignAidBlock_def Let_def
  by (auto split: if_splits option.splits simp: conserved_quiet choosing_def is_choice_def)

lemma conserved_handleForeignAidChallengeBlock:
  assumes "stocked g" and "pendingAction g = Some pa" and "\<not> is_choice pa"
    and "handleForeignAidChallengeBlock g pa k rt = Inr x"
  shows "conserved (snd x)"
  using assms unfolding handleForeignAidChallengeBlock_def Let_def
  by (auto split: if_splits option.splits simp: conserved_quiet choosing_def is_choice_def)

lemma conserved_handleAssassinateChallenge:
  assumes "stocked g" and "pendingAction g = Some pa" and "\<not> is_choice pa"
    and "handleAssassinateChallenge g pa k rt = Inr x"
  shows "conserved (snd x)"
  using assms unfolding handleAssassinateChallenge_def Let_def
  by (auto split: if_splits option.splits simp: conserved_quiet choosing_def is_choice_def)

lemma conserved_handleAssassinateBlock:
  assumes "stocked g" and "pendingAction g = Some pa" and "\<not> is_choice pa"
    and "handleAssassinateBlock g pa k rt pl = Inr x"
  shows "conserved (snd x)"
  using assms unfolding handleAssassinateBlock_def Let_def
  by (auto split: if_splits option.splits simp: conserved_quiet choosing_def is_choice_def)

lemma conserved_handleAssassinateChallengeBlock:
  assumes "stocked g" and "pendingAction g = Some pa" and "\<not> is_choice pa"
    and "handleAssassinateChallengeBlock g pa k rt = Inr x"
  shows "conserved (snd x)"
  using assms unfolding handleAssassinateChallengeBlock_def Let_def
  by (auto split: if_splits option.splits simp: conserved_quiet choosing_def is_choice_def)

lemma conserved_handleStealChallenge:
  assumes "stocked g" and "pendingAction g = Some pa" and "\<not> is_choice pa"
    and "handleStealChallenge g pa k rt = Inr x"
  shows "conserved (snd x)"
  using assms unfolding handleStealChallenge_def Let_def
  by (auto split: if_splits option.splits simp: conserved_quiet choosing_def is_choice_def)

lemma conserved_handleStealBlock:
  assumes "stocked g" and "pendingAction g = Some pa" and "\<not> is_choice pa"
    and "handleStealBlock g pa k rt pl = Inr x"
  shows "conserved (snd x)"
  using assms unfolding handleStealBlock_def Let_def
  by (auto split: if_splits option.splits simp: conserved_quiet choosing_def is_choice_def)

lemma conserved_handleStealChallengeBlock:
  assumes "stocked g" and "pendingAction g = Some pa" and "\<not> is_choice pa"
    and "handleStealChallengeBlock g pa k rt = Inr x"
  shows "conserved (snd x)"
  using assms unfolding handleStealChallengeBlock_def Let_def
  by (auto split: if_splits option.splits simp: conserved_quiet choosing_def is_choice_def)

text \<open>Writing new cards into distinct slots of a hand.\<close>

lemma fold_update_roles:
  assumes "distinct (map fst zs)" and "\<forall>i \<in> fst ` set zs. i < length acc"
  shows "mset (map role (fold (\<lambda>(i, c) acc. acc[i := h c]) zs acc)) + mset (map (\<lambda>z. role (acc ! fst z)) zs)
       = mset (map role acc) + mset (map (\<lambda>z. role (h (snd z))) zs)"
  using assms
proof (induction zs arbitrary: acc)
  case Nil
  show ?case by simp
next
  case (Cons z zs)
  obtain i c where z: "z = (i, c)" by (cases z)
  let ?acc = "acc[i := h c]"
  have i: "i < length acc" and ni: "i \<notin> fst ` set zs" and d: "distinct (map fst zs)"
    using Cons.prems z by auto
  have b: "\<forall>j \<in> fst ` set zs. j < length ?acc" using Cons.prems by simp
  have same: "map (\<lambda>z. role (?acc ! fst z)) zs = map (\<lambda>z. role (acc ! fst z)) zs"
    using ni by (intro map_cong refl) (metis image_eqI nth_list_update_neq)
  define F where "F = mset (map role (fold (\<lambda>(i, c) acc. acc[i := h c]) zs ?acc))"
  define Q where "Q = mset (map (\<lambda>z. role (acc ! fst z)) zs)"
  define N where "N = mset (map (\<lambda>z. role (h (snd z))) zs)"
  define A where "A = mset (map role acc)"
  define A' where "A' = mset (map role ?acc)"
  have 1: "F + Q = A' + N" unfolding F_def Q_def A'_def N_def using Cons.IH[OF d b] same by simp
  have 2: "add_mset (role (acc ! i)) A' = add_mset (role (h c)) A"
    unfolding A_def A'_def by (rule roles_update[OF i])
  have "add_mset (role (acc ! i)) (F + Q) = add_mset (role (acc ! i)) A' + N" using 1 by simp
  also have "\<dots> = add_mset (role (h c)) A + N" unfolding 2 ..
  finally have "F + add_mset (role (acc ! i)) Q = A + add_mset (role (h c)) N" by simp
  then show ?case unfolding F_def Q_def A_def N_def z by simp
qed

lemma replace_slots_roles:
  assumes "length chosen = length (unrevealed_slots cs)"
  shows "mset (map role (replace_slots cs (unrevealed_slots cs) chosen))
       = mset (map role (filter revealed cs)) + mset (map opt_role chosen)"
proof -
  let ?slots = "unrevealed_slots cs"
  let ?zs = "zip ?slots chosen"
  have f: "map fst ?zs = ?slots" using assms by simp
  have d: "distinct (map fst ?zs)" unfolding f by simp
  have b: "\<forall>i \<in> fst ` set ?zs. i < length cs"
  proof
    fix i assume "i \<in> fst ` set ?zs"
    then have "i \<in> set (map fst ?zs)" by simp
    then have "i \<in> set ?slots" unfolding f .
    then show "i < length cs" by (simp add: unrevealed_slots_set)
  qed
  have o: "map (\<lambda>z. role (cs ! fst z)) ?zs = map role (filter (\<lambda>c. \<not> revealed c) cs)"
  proof -
    have "map (\<lambda>z. role (cs ! fst z)) ?zs = map (\<lambda>i. role (cs ! i)) (map fst ?zs)"
      by (simp add: comp_def)
    then show ?thesis unfolding f slots_roles .
  qed
  have n: "map (\<lambda>z. role (\<lparr>role = opt_role (snd z), revealed = False\<rparr>)) ?zs = map opt_role chosen"
  proof -
    have "map (\<lambda>z. role (\<lparr>role = opt_role (snd z), revealed = False\<rparr>)) ?zs = map opt_role (map snd ?zs)"
      by (simp add: comp_def)
    then show ?thesis using assms by simp
  qed
  from fold_update_roles[OF d b, of "\<lambda>c. \<lparr>role = opt_role c, revealed = False\<rparr>"]
  have "mset (map role (replace_slots cs ?slots chosen)) + mset (map role (filter (\<lambda>c. \<not> revealed c) cs))
      = mset (map role cs) + mset (map opt_role chosen)"
    unfolding o n replace_slots_def .
  then show ?thesis unfolding roles_partition[of cs] by simp
qed

lemma map_partition:
  "mset (map h xs) = mset (map h (filter P xs)) + mset (map h (filter (\<lambda>x. \<not> P x) xs))"
  by (induction xs) simp_all

lemma conserved_handleExchangeChoice:
  assumes "conserved g" and "pendingAction g = Some pa" and "is_choice pa"
    and "handleExchangeChoice g pa k rt pl = Inr x"
  shows "conserved (snd x)"
  using assms(4)
proof (cases rule: handleExchangeChoice_cases)
  case rejected
  with assms(1) show ?thesis by simp
next
  case (accepted sec actor)
  let ?keep = "case p_keep pl of None \<Rightarrow> [] | Some ks \<Rightarrow> ks"
  let ?chosen = "filter (\<lambda>e. opt_id e \<in> set ?keep) (options sec)"
  let ?unchosen = "filter (\<lambda>e. opt_id e \<notin> set ?keep) (options sec)"
  let ?slots = "unrevealed_slots (influence actor)"
  let ?f = "\<lambda>p. p\<lparr>influence := replace_slots (influence p) ?slots ?chosen\<rparr>"
  have a: "actorId pa = Some k" using accepted(1) by simp
  have fl: "in_flight g = drawn_cards sec"
    using assms(2,3) accepted(3) by (simp add: in_flight_def a)
  have ok: "mset (map opt_role (options sec))
          = mset (map role (filter (\<lambda>c. \<not> revealed c) (influence actor))) + mset (drawn_cards sec)"
    using assms(1,2,3) accepted(3,4) by (simp add: conserved_def exch_ok_def a)
  have full: "mset (all_cards g) + mset (drawn_cards sec) = full_deck"
    using assms(1) fl by (simp add: conserved_def)
  have pl: "players (snd x) = map_first (\<lambda>p. Some (pid p) = Some k) ?f (players g)"
    and dk: "mset (deck (snd x)) = mset (map opt_role ?unchosen) + mset (deck g)"
    and pd: "pendingAction (snd x) = None"
    unfolding accepted(8) by simp_all
  have fd: "find (\<lambda>p. Some (pid p) = Some k) (players g) = Some actor"
    using accepted(4) by (simp add: getPlayer_def)
  have len: "length ?chosen = length ?slots" using accepted(6,7) by simp
  define H where "H = mset (concat (map hand_roles (players g)))"
  define H' where "H' = mset (concat (map hand_roles (players (snd x))))"
  define D where "D = mset (deck g)"
  define U where "U = mset (map role (filter (\<lambda>c. \<not> revealed c) (influence actor)))"
  define R where "R = mset (map role (filter revealed (influence actor)))"
  define C where "C = mset (map opt_role ?chosen)"
  define N where "N = mset (map opt_role ?unchosen)"
  define W where "W = mset (drawn_cards sec)"
  have 1: "H' + (U + R) = H + (R + C)"
    unfolding H'_def H_def U_def R_def C_def pl
    using hands_map_first[OF fd, of ?f] replace_slots_roles[OF len] roles_partition[of "influence actor"]
    by (simp add: hand_roles_def)
  have "mset (map opt_role (options sec)) = C + N"
    unfolding C_def N_def by (rule map_partition)
  then have 2: "C + N = U + W" using ok unfolding U_def W_def by simp
  have 3: "D + H + W = full_deck" using full unfolding D_def H_def W_def by (simp add: all_cards_def)
  have "(N + D + H') + (U + R) = D + H + R + (C + N)" using 1 by (simp add: ac_simps)
  also have "\<dots> = (D + H + W) + (U + R)" unfolding 2 by (simp add: ac_simps)
  finally have "N + D + H' = full_deck" unfolding 3 by simp
  then have cards: "mset (all_cards (snd x)) = full_deck"
    unfolding N_def D_def H'_def by (simp add: all_cards_def dk)
  have "sized (snd x) = sized g"
    by (rule sized_kept) (rule reveals_kept_handleExchangeChoice[OF assms(4)])
  then have "stocked (snd x)" using assms(1) cards by (simp add: stocked_def conserved_def)
  moreover have "\<not> choosing (snd x)" by (simp add: choosing_def pd)
  ultimately show ?thesis by (simp add: conserved_quiet)
qed

lemma conserved_handleResponse:
  assumes "conserved g" and "handleResponse g k rt pl = Inr x"
  shows "conserved (snd x)"
proof -
  have q: "stocked g" if "pendingAction g = Some pa" "\<not> is_choice pa" for pa
    using assms(1) that conserved_quiet[of g] by (simp add: choosing_def)
  have q': "\<not> choosing g" if "pendingAction g = Some pa" "\<not> is_choice pa" for pa
    using that by (simp add: choosing_def)
  from assms(2) show ?thesis
  proof (cases rule: handleResponse_cases)
    case idle
    with assms(1) show ?thesis by simp
  next
    case (lose pa)
    then have n: "\<not> is_choice pa" by (simp add: is_choice_def)
    from conserved_handleLoseInfluence[OF q[OF lose(1) n] q'[OF lose(1) n] lose(3)] show ?thesis .
  next
    case (tax pa)
    then have n: "\<not> is_choice pa" by (simp add: is_choice_def)
    from conserved_handleTax[OF q[OF tax(1) n] tax(1) n tax(4)] show ?thesis .
  next
    case (aid_block pa)
    then have n: "\<not> is_choice pa" by (simp add: is_choice_def)
    from conserved_handleForeignAidBlock[OF q[OF aid_block(1) n] aid_block(1) n aid_block(4)]
    show ?thesis .
  next
    case (aid_challenge pa)
    then have n: "\<not> is_choice pa" by (simp add: is_choice_def)
    from conserved_handleForeignAidChallengeBlock[OF q[OF aid_challenge(1) n] aid_challenge(1) n
        aid_challenge(4)]
    show ?thesis .
  next
    case (ass_challenge pa)
    then have n: "\<not> is_choice pa" by (simp add: is_choice_def)
    from conserved_handleAssassinateChallenge[OF q[OF ass_challenge(1) n] ass_challenge(1) n
        ass_challenge(4)]
    show ?thesis .
  next
    case (ass_block pa)
    then have n: "\<not> is_choice pa" by (simp add: is_choice_def)
    from conserved_handleAssassinateBlock[OF q[OF ass_block(1) n] ass_block(1) n ass_block(4)]
    show ?thesis .
  next
    case (ass_challenge_block pa)
    then have n: "\<not> is_choice pa" by (simp add: is_choice_def)
    from conserved_handleAssassinateChallengeBlock[OF q[OF ass_challenge_block(1) n]
        ass_challenge_block(1) n ass_challenge_block(4)]
    show ?thesis .
  next
    case (steal_challenge pa)
    then have n: "\<not> is_choice pa" by (simp add: is_choice_def)
    from conserved_handleStealChallenge[OF q[OF steal_challenge(1) n] steal_challenge(1) n
        steal_challenge(4)]
    show ?thesis .
  next
    case (steal_block pa)
    then have n: "\<not> is_choice pa" by (simp add: is_choice_def)
    from conserved_handleStealBlock[OF q[OF steal_block(1) n] steal_block(1) n steal_block(4)]
    show ?thesis .
  next
    case (steal_challenge_block pa)
    then have n: "\<not> is_choice pa" by (simp add: is_choice_def)
    from conserved_handleStealChallengeBlock[OF q[OF steal_challenge_block(1) n]
        steal_challenge_block(1) n steal_challenge_block(4)]
    show ?thesis .
  next
    case (exch_challenge pa)
    then have n: "\<not> is_choice pa" by (simp add: is_choice_def)
    from conserved_handleExchangeChallenge[OF q[OF exch_challenge(1) n] exch_challenge]
    show ?thesis .
  next
    case (exch_choice pa)
    then have c: "is_choice pa" by (simp add: is_choice_def)
    from conserved_handleExchangeChoice[OF assms(1) exch_choice(1) c exch_choice(4)]
    show ?thesis .
  qed
qed

lemma hands_update:
  assumes "k < length ps"
  shows "mset (concat (map hand_roles (ps[k := q]))) + mset (hand_roles (ps ! k))
       = mset (concat (map hand_roles ps)) + mset (hand_roles q)"
  using assms
proof (induction ps arbitrary: k)
  case Nil
  then show ?case by simp
next
  case (Cons p ps)
  show ?case
  proof (cases k)
    case 0
    then show ?thesis by simp
  next
    case (Suc j)
    with Cons.prems have "j < length ps" by simp
    from Cons.IH[OF this] Suc show ?thesis by (simp add: ac_simps)
  qed
qed

lemma add_card_cards:
  assumes "k < length (players g)"
  shows "mset (all_cards (add_card k r g)) = add_mset r (mset (all_cards g))"
proof -
  let ?q = "(players g ! k)\<lparr>influence := influence (players g ! k) @ [\<lparr>role = r, revealed = False\<rparr>]\<rparr>"
  have "mset (hand_roles ?q) = add_mset r (mset (hand_roles (players g ! k)))"
    by (simp add: hand_roles_def)
  with hands_update[OF assms, of ?q]
  have "mset (concat (map hand_roles ((players g)[k := ?q])))
      = add_mset r (mset (concat (map hand_roles (players g))))"
    by simp
  then show ?thesis by (simp add: all_cards_def add_card_def)
qed

lemma add_card_hand:
  assumes "j < length (players g)"
  shows "length (players (add_card k r g)) = length (players g)"
    and "length (influence (players (add_card k r g) ! j))
       = (if j = k then Suc (length (influence (players g ! j))) else length (influence (players g ! j)))"
  using assms by (simp_all add: add_card_def nth_list_update)

lemma draw_cards:
  assumes "deck g \<noteq> []"
  shows "add_mset (fst (draw g)) (mset (all_cards (snd (draw g)))) = mset (all_cards g)"
    and "Suc (length (deck (snd (draw g)))) = length (deck g)"
proof -
  from draw_nonempty_mset[OF assms]
  show "add_mset (fst (draw g)) (mset (all_cards (snd (draw g)))) = mset (all_cards g)"
    by (simp add: all_cards_def flip: union_mset_add_mset_left)
  from draw_nonempty[OF assms] assms show "Suc (length (deck (snd (draw g)))) = length (deck g)"
    by simp
qed

lemma dealt_deal_two:
  assumes "dealt k g" and "k < length (players g)" and "k \<le> 6"
  shows "dealt (Suc k) (deal_two k g) \<and> length (players (deal_two k g)) = length (players g)"
proof -
  let ?n = "length (players g)"
  let ?g1 = "snd (draw g)"
  let ?g2 = "add_card k (fst (draw g)) ?g1"
  let ?g3 = "snd (draw ?g2)"
  let ?g4 = "add_card k (fst (draw ?g2)) ?g3"
  have eq: "deal_two k g = ?g4" by (rule deal_two_alt)
  have cards: "mset (all_cards g) = full_deck" and len: "length (deck g) + 2 * k = 15"
    and hands: "\<And>j. j < ?n \<Longrightarrow> length (influence (players g ! j)) = (if j < k then 2 else 0)"
    using assms(1) by (simp_all add: dealt_def list_all_iff)
  have ne: "deck g \<noteq> []" using len assms(3) by auto
  have n1: "length (players ?g1) = ?n" by simp
  have c2: "mset (all_cards ?g2) = full_deck"
    using add_card_cards[of k ?g1 "fst (draw g)"] draw_cards(1)[OF ne] assms(2) cards by simp
  have l2: "length (deck ?g2) + 2 * k = 14" using draw_cards(2)[OF ne] len by simp
  have n2: "length (players ?g2) = ?n" using add_card_hand(1)[of k ?g1] assms(2) by simp
  have h2: "length (influence (players ?g2 ! j))
          = (if j = k then Suc (length (influence (players g ! j))) else length (influence (players g ! j)))"
    if "j < ?n" for j
    using add_card_hand(2)[of j ?g1 k "fst (draw g)"] that by simp
  have ne2: "deck ?g2 \<noteq> []" using l2 assms(3) by auto
  have n3: "length (players ?g3) = ?n" using n2 by simp
  have c4: "mset (all_cards ?g4) = full_deck"
    using add_card_cards[of k ?g3 "fst (draw ?g2)"] draw_cards(1)[OF ne2] assms(2) c2 n3 by simp
  have l4: "length (deck ?g4) + 2 * Suc k = 15" using draw_cards(2)[OF ne2] l2 by simp
  have n4: "length (players ?g4) = ?n" using add_card_hand(1)[of k ?g3] assms(2) n3 by simp
  have h4: "length (influence (players ?g4 ! j)) = (if j < Suc k then 2 else 0)" if "j < ?n" for j
  proof -
    have "length (influence (players ?g4 ! j))
        = (if j = k then Suc (length (influence (players ?g2 ! j))) else length (influence (players ?g2 ! j)))"
      using add_card_hand(2)[of j ?g3 k "fst (draw ?g2)"] that n3 by simp
    with h2[OF that] hands[OF that] show ?thesis by auto
  qed
  from c4 l4 h4 n4 show ?thesis unfolding eq by (simp add: dealt_def list_all_iff)
qed

lemma dealt_fold:
  assumes "dealt 0 g" and "k \<le> length (players g)" and "length (players g) \<le> 6"
  shows "dealt k (fold deal_two [0 ..< k] g)
       \<and> length (players (fold deal_two [0 ..< k] g)) = length (players g)"
  using assms(2)
proof (induction k)
  case 0
  with assms(1) show ?case by simp
next
  case (Suc k)
  then have ih: "dealt k (fold deal_two [0 ..< k] g)"
    and n: "length (players (fold deal_two [0 ..< k] g)) = length (players g)" by simp_all
  have "k < length (players (fold deal_two [0 ..< k] g))" using Suc.prems n by simp
  moreover have "k \<le> 6" using Suc.prems assms(3) by simp
  ultimately show ?case using dealt_deal_two[OF ih] n by simp
qed

lemma stocked_GameEngine:
  assumes "length ps \<le> 6"
  shows "stocked (GameEngine ps tape)"
proof -
  obtain d rs where m: "makeDeck tape = (d, rs)" by (cases "makeDeck tape")
  let ?g0 = "\<lparr>players = map (\<lambda>(i, n). \<lparr>pid = i, name = n, coins = 2, influence = []\<rparr>) ps,
               deck = d, log = [], turnIndex = 0, pendingAction = None,
               gameOver = False, winnerId = None, private_exchange = Map.empty,
               random_tape = rs\<rparr>"
  let ?g1 = "fold deal_two [0 ..< length ps] ?g0"
  have eq: "GameEngine ps tape
        = announce_turn (push_log ''Game started. Each player has 2 influence and 2 coins.'' ?g1)"
    using m by (simp add: GameEngine_def Let_def)
  have d: "mset d = full_deck" "length d = 15"
    using makeDeck_mset[of tape] makeDeck_length[of tape] m by simp_all
  have "concat (map hand_roles (players ?g0)) = []"
    by (simp add: hand_roles_def case_prod_beta)
  then have "dealt 0 ?g0" using d by (simp add: dealt_def all_cards_def list_all_iff case_prod_beta)
  from dealt_fold[OF this, of "length ps"] assms
  have dl: "dealt (length ps) ?g1" and n: "length (players ?g1) = length ps" by simp_all
  have "sized ?g1" using dl n assms by (simp add: sized_def dealt_def list_all_length)
  moreover have "mset (all_cards ?g1) = full_deck" using dl by (simp add: dealt_def)
  ultimately have "stocked ?g1" by (simp add: stocked_def)
  moreover have "stocked (announce_turn g) = stocked g" for g
    by (rule stocked_cong) simp_all
  ultimately show ?thesis unfolding eq by simp
qed

lemma in_flight_quiet: "\<not> choosing g \<Longrightarrow> in_flight g = []"
  by (simp add: in_flight_def choosing_def split: option.splits)

lemma reachable_conserved: "reachable g \<Longrightarrow> length (players g) \<le> 6 \<Longrightarrow> conserved g"
proof (induction rule: reachable.induct)
  case (start ps tape)
  have "length (players (GameEngine ps tape)) = length ps"
    using GameEngine_frame(1)[of ps tape] by (metis length_map)
  with start.prems have "stocked (GameEngine ps tape)" by (intro stocked_GameEngine) simp
  moreover have "\<not> choosing (GameEngine ps tape)" by (simp add: choosing_def GameEngine_frame)
  ultimately show ?case by (simp add: conserved_quiet)
next
  case (action g cur g1 aid actionType tid)
  have g1: "g1 = snd (currentPlayer g)" using action.hyps(2) by simp
  have "reveals_kept (players g1) (players (snd (resolveAction g1 aid actionType tid)))"
    by (rule reveals_kept_resolveAction)
  then have "length (players (snd (resolveAction g1 aid actionType tid))) = length (players g1)"
    unfolding reveals_kept_def by (metis list_all2_lengthD)
  with action.prems g1 have "length (players g) \<le> 6" by simp
  then have "conserved g" by (rule action.IH)
  moreover have "conserved g1 = conserved g" unfolding g1 by (rule conserved_cong) simp_all
  moreover have q: "\<not> choosing g1" using action.hyps(4) by (simp add: choosing_def)
  ultimately have "stocked g1" by (simp add: conserved_quiet)
  then show ?case using q by (rule conserved_resolveAction)
next
  case (response g k responseType pl out g')
  have "reveals_kept (players g) (players (snd (out, g')))"
    by (rule reveals_kept_handleResponse[OF response.hyps(2)])
  then have "length (players g') = length (players g)"
    unfolding reveals_kept_def by (metis list_all2_lengthD snd_conv)
  with response.prems have "conserved g" by (intro response.IH) simp
  from conserved_handleResponse[OF this response.hyps(2)] show ?case by simp
next
  case (projection g viewerId)
  have "conserved (snd (getStateFor g viewerId)) = conserved g"
    by (rule conserved_cong) (simp_all add: getStateFor_snd)
  moreover have "length (players g) \<le> 6" using projection.prems by (simp add: getStateFor_snd)
  ultimately show ?case using projection.IH by simp
next
  case (chance g tape)
  have "conserved (g\<lparr>random_tape := tape\<rparr>) = conserved g" by (rule conserved_cong) simp_all
  with chance show ?case by simp
qed

lemma demo_claimed_reachable: "reachable demo_claimed"
proof -
  from demo_fresh_current obtain cur where c: "fst (currentPlayer demo_fresh) = Some cur"
    and p: "pid cur = ''a''" by auto
  have e: "currentPlayer demo_fresh = (Some cur, snd (currentPlayer demo_fresh))"
    using c by (simp add: prod_eq_iff)
  have n: "pendingAction (snd (currentPlayer demo_fresh)) = None"
    by (simp add: demo_fresh_def GameEngine_frame)
  show ?thesis unfolding demo_claimed_def
    by (rule reachable.action[OF demo_fresh_reachable e p n])
qed

lemma response_reachable:
  assumes "reachable g"
  shows "reachable (case handleResponse g k rt pl of Inl e \<Rightarrow> g | Inr (out, g') \<Rightarrow> g')"
proof (cases "handleResponse g k rt pl")
  case (Inl e)
  with assms show ?thesis by simp
next
  case (Inr x)
  then have "handleResponse g k rt pl = Inr (fst x, snd x)" by simp
  from reachable.response[OF assms this] Inr show ?thesis by (simp add: case_prod_beta)
qed

lemma demo_choice_reachable: "reachable demo_choice"
  unfolding demo_choice_def using demo_claimed_reachable by (rule response_reachable)

lemma demo_choice_cards:
  "deck demo_choice = [''Duke'', ''Duke'', ''Assassin'', ''Assassin'', ''Assassin'', ''Captain'',
                       ''Captain'', ''Captain'', ''Ambassador'']"
  "held_roles demo_choice = [''Duke'', ''Contessa'', ''Contessa'', ''Contessa'']"
  "revealed_roles demo_choice = []"
  "in_flight demo_choice = [''Ambassador'', ''Ambassador'']"
  "length (players demo_choice) = 2"
  by code_simp+

lemma demo_eight_reachable: "reachable demo_eight"
  unfolding demo_eight_def by (rule reachable.start)

lemma demo_eight_cards:
  "length (deck demo_eight) = 14" "length (held_roles demo_eight) = 16"
  "revealed_roles demo_eight = []"
  by code_simp+

lemma full_deck_size: "size full_deck = 15"
  by (simp add: full_deck_def roles_def)

lemma other_size: "size M = n \<Longrightarrow> n \<noteq> 15 \<Longrightarrow> M \<noteq> full_deck"
  using full_deck_size by auto

text \<open>
  C2, as stated, fails. In the two-player game with the choice of an exchange outstanding,
  deck, held roles and revealed roles are thirteen cards, with one Ambassador among them: the
  two cards drawn for the exchange are in the actor's private entry. In a fresh game of
  eight players they are thirty cards: the sixteenth card dealt is drawn from an empty
  deck, which \<open>draw\<close> replaces by a full new one.
\<close>

theorem cards_not_conserved:
  "reachable demo_choice
   \<and> mset (deck demo_choice) + mset (held_roles demo_choice) + mset (revealed_roles demo_choice)
       \<noteq> full_deck
   \<and> reachable demo_eight
   \<and> mset (deck demo_eight) + mset (held_roles demo_eight) + mset (revealed_roles demo_eight)
       \<noteq> full_deck"
proof -
  have "size (mset (deck demo_choice) + mset (held_roles demo_choice) + mset (revealed_roles demo_choice))
      = 13"
    by (simp add: demo_choice_cards)
  then have a: "mset (deck demo_choice) + mset (held_roles demo_choice) + mset (revealed_roles demo_choice)
      \<noteq> full_deck"
    by (rule other_size) simp
  have "size (mset (deck demo_eight) + mset (held_roles demo_eight) + mset (revealed_roles demo_eight))
      = 30"
    by (simp add: demo_eight_cards)
  then have b: "mset (deck demo_eight) + mset (held_roles demo_eight) + mset (revealed_roles demo_eight)
      \<noteq> full_deck"
    by (rule other_size) simp
  from a b demo_choice_reachable demo_eight_reachable show ?thesis by simp
qed

text \<open>
  C2, amended. In every state of a game of at most six players, the deck, the roles the
  players hold face down, the roles revealed, and the cards drawn for an exchange whose
  choice is outstanding (\<open>in_flight\<close>, empty in every other state) are together three
  copies of each of the five roles.
\<close>

theorem cards_conserved:
  assumes "reachable g" and "length (players g) \<le> 6"
  shows "mset (deck g) + mset (held_roles g) + mset (revealed_roles g) + mset (in_flight g) = full_deck"
proof -
  from reachable_conserved[OF assms] have "mset (all_cards g) + mset (in_flight g) = full_deck"
    by (simp add: conserved_def)
  then show ?thesis by (simp add: all_cards_split)
qed

theorem cards_conserved_witness:
  "reachable demo_choice \<and> length (players demo_choice) \<le> 6
   \<and> in_flight demo_choice = [''Ambassador'', ''Ambassador'']
   \<and> mset (deck demo_choice) + mset (held_roles demo_choice) + mset (revealed_roles demo_choice)
       + mset (in_flight demo_choice) = full_deck"
  using cards_conserved[of demo_choice] demo_choice_reachable
  by (simp add: demo_choice_cards(4,5))

text \<open>
  Six is the most: with seven players one card is left after the deal, so the second draw
  of an exchange finds the deck empty and \<open>draw\<close> makes a full new deck.
\<close>

lemma pass_all_reachable: "reachable g \<Longrightarrow> reachable (pass_all ks g)"
proof (induction ks arbitrary: g)
  case Nil
  then show ?case by (simp add: pass_all_def)
next
  case (Cons k ks)
  let ?r = "handleResponse g k ''pass'' \<lparr>p_role = None, p_cardIndex = None, p_keep = None\<rparr>"
  let ?h = "case ?r of Inl e \<Rightarrow> g | Inr (out, h') \<Rightarrow> h'"
  have "reachable ?h"
  proof (cases ?r)
    case (Inl e)
    with Cons.prems show ?thesis by simp
  next
    case (Inr x)
    then have "?r = Inr (fst x, snd x)" by simp
    from reachable.response[OF Cons.prems this] Inr show ?thesis by (simp add: case_prod_beta)
  qed
  from Cons.IH[OF this] show ?case by (simp add: pass_all_def)
qed

lemma seven_players_exhaust_deck:
  "reachable demo_seven_choice"
  "length (players demo_seven_choice) = 7"
  "length (deck demo_seven_choice) = 14"
  "length (held_roles demo_seven_choice) = 14"
  "length (in_flight demo_seven_choice) = 2"
proof -
  have "map_option pid (fst (currentPlayer demo_seven)) = Some ''a''"
    unfolding demo_seven_def by code_simp
  then obtain cur where c: "fst (currentPlayer demo_seven) = Some cur" and p: "pid cur = ''a''"
    by auto
  have e: "currentPlayer demo_seven = (Some cur, snd (currentPlayer demo_seven))"
    using c by (simp add: prod_eq_iff)
  have n: "pendingAction (snd (currentPlayer demo_seven)) = None"
    by (simp add: demo_seven_def GameEngine_frame)
  have "reachable demo_seven"
    unfolding demo_seven_def by (rule reachable.start)
  from reachable.action[OF this e p n]
  show "reachable demo_seven_choice" unfolding demo_seven_choice_def by (rule pass_all_reachable)
  show "length (players demo_seven_choice) = 7" by code_simp
  show "length (deck demo_seven_choice) = 14" by code_simp
  show "length (held_roles demo_seven_choice) = 14" by code_simp
  show "length (in_flight demo_seven_choice) = 2" by code_simp
qed

text \<open>
  The gate on \<open>resolveAction\<close> is needed as well: an action resolved while the choice is
  outstanding ends the turn and leaves the two drawn cards in the private entry, which
  nothing reads any more.
\<close>

lemma ungated_action_loses_cards:
  "pendingAction demo_choice \<noteq> None"
  "pendingAction demo_ungated = None"
  "length (deck demo_ungated) = 9"
  "length (held_roles demo_ungated) = 4"
  "revealed_roles demo_ungated = []"
  "in_flight demo_ungated = []"
  by code_simp+

section \<open>The turn passes to the next living player\<close>

lemma seat_alive_cong: "players g' = players g \<Longrightarrow> seat_alive g' = seat_alive g"
  using isAlive_cong[of g' g] by (simp add: seat_alive_def fun_eq_iff)

lemma nextTurn_loop_turn:
  assumes "0 < k"
  shows "\<exists>d. 1 \<le> d \<and> d \<le> k
            \<and> turnIndex (nextTurn_loop k g) = (turnIndex g + d) mod length (players g)
            \<and> (\<forall>e. 1 \<le> e \<and> e < d \<longrightarrow> \<not> seat_alive g ((turnIndex g + e) mod length (players g)))
            \<and> (seat_alive g ((turnIndex g + d) mod length (players g)) \<or> d = k)"
  using assms
proof (induction k arbitrary: g)
  case 0
  then show ?case by simp
next
  case (Suc k)
  let ?n = "length (players g)"
  let ?g' = "g\<lparr>turnIndex := (turnIndex g + 1) mod ?n\<rparr>"
  have sa: "seat_alive ?g' = seat_alive g" by (rule seat_alive_cong) simp
  have ia: "isAlive ?g' = isAlive g" by (rule isAlive_cong) simp
  show ?case
  proof (cases "seat_alive g ((turnIndex g + 1) mod ?n)")
    case True
    then have "isAlive ?g' (Some (pid (players ?g' ! turnIndex ?g')))"
      unfolding ia by (simp add: seat_alive_def)
    then have "nextTurn_loop (Suc k) g = ?g'" by (simp add: Let_def)
    with True show ?thesis by (intro exI[of _ 1]) simp
  next
    case False
    then have "\<not> isAlive ?g' (Some (pid (players ?g' ! turnIndex ?g')))"
      unfolding ia by (simp add: seat_alive_def)
    then have eq: "nextTurn_loop (Suc k) g = nextTurn_loop k ?g'" by (simp add: Let_def)
    show ?thesis
    proof (cases k)
      case 0
      with eq False show ?thesis by (intro exI[of _ 1]) simp
    next
      case (Suc k')
      then have "0 < k" by simp
      from Suc.IH[OF this, of ?g'] obtain d where d: "1 \<le> d" "d \<le> k"
        "turnIndex (nextTurn_loop k ?g') = ((turnIndex g + 1) mod ?n + d) mod ?n"
        "\<forall>e. 1 \<le> e \<and> e < d \<longrightarrow> \<not> seat_alive g (((turnIndex g + 1) mod ?n + e) mod ?n)"
        "seat_alive g (((turnIndex g + 1) mod ?n + d) mod ?n) \<or> d = k"
        using sa by auto
      have sh: "((turnIndex g + 1) mod ?n + x) mod ?n = (turnIndex g + Suc x) mod ?n" for x
        by (simp add: mod_simps)
      have dead: "\<not> seat_alive g ((turnIndex g + e) mod ?n)" if "1 \<le> e" "e < Suc d" for e
      proof (cases "e = 1")
        case True
        with False show ?thesis by simp
      next
        case False
        define e' where "e' = e - 1"
        have e': "e = Suc e'" "1 \<le> e'" "e' < d" using that False by (simp_all add: e'_def)
        have "\<not> seat_alive g (((turnIndex g + 1) mod ?n + e') mod ?n)" using d(4) e' by blast
        then have "\<not> seat_alive g ((turnIndex g + Suc e') mod ?n)" unfolding sh .
        then show ?thesis unfolding e'(1) .
      qed
      have t: "turnIndex (nextTurn_loop (Suc k) g) = (turnIndex g + Suc d) mod ?n"
        unfolding eq d(3) sh ..
      have a: "seat_alive g ((turnIndex g + Suc d) mod ?n) \<or> Suc d = Suc k"
        using d(5) unfolding sh by simp
      from d(1,2) t dead a show ?thesis
        by (intro exI[of _ "Suc d"]) simp
    qed
  qed
qed

lemma seat_reached:
  assumes "j < n"
  shows "\<exists>e. 1 \<le> e \<and> e \<le> n \<and> (i + e) mod n = (j::nat)"
proof -
  let ?e = "(j + n - i mod n) mod n"
  have n0: "0 < n" using assms by simp
  have le: "i mod n \<le> j + n" using n0 by (meson mod_less_divisor less_imp_le_nat trans_le_add2)
  have "(i + ?e) mod n = (i mod n + (j + n - i mod n)) mod n" by (simp add: mod_simps)
  also have "\<dots> = (j + n) mod n" using le by simp
  also have "\<dots> = j" using assms by simp
  finally have r: "(i + ?e) mod n = j" .
  show ?thesis
  proof (cases "?e = 0")
    case True
    with r have "(i + n) mod n = j" by simp
    with n0 show ?thesis by (intro exI[of _ n]) simp
  next
    case False
    moreover have "?e < n" using n0 by simp
    ultimately show ?thesis using r by (intro exI[of _ ?e]) simp
  qed
qed

lemma alive_seat:
  "alivePlayers g \<noteq> [] \<longleftrightarrow> (\<exists>j < length (players g). seat_alive g j)"
  by (auto simp: alivePlayers_def filter_empty_conv seat_alive_def in_set_conv_nth intro: nth_mem)

lemma nextTurn_loop_next:
  assumes "alivePlayers g \<noteq> []"
  shows "next_living g (turnIndex g) (turnIndex (nextTurn_loop (length (players g)) g))"
proof -
  let ?n = "length (players g)"
  let ?i = "turnIndex g"
  from assms obtain j where j: "j < ?n" "seat_alive g j" by (auto simp: alive_seat)
  have n0: "0 < ?n" using j(1) by (cases "players g") simp_all
  from nextTurn_loop_turn[OF n0, of g] obtain d where d: "1 \<le> d" "d \<le> ?n"
    "turnIndex (nextTurn_loop ?n g) = (?i + d) mod ?n"
    "\<forall>e. 1 \<le> e \<and> e < d \<longrightarrow> \<not> seat_alive g ((?i + e) mod ?n)"
    "seat_alive g ((?i + d) mod ?n) \<or> d = ?n"
    by blast
  have "seat_alive g ((?i + d) mod ?n)"
  proof (rule ccontr)
    assume dead: "\<not> seat_alive g ((?i + d) mod ?n)"
    with d(5) have dn: "d = ?n" by simp
    from seat_reached[OF j(1), of ?i] obtain e where e: "1 \<le> e" "e \<le> ?n" "(?i + e) mod ?n = j"
      by blast
    have "\<not> seat_alive g ((?i + e) mod ?n)"
    proof (cases "e = d")
      case True
      with dead show ?thesis by simp
    next
      case False
      with e(2) dn have "e < d" by simp
      with d(4) e(1) show ?thesis by blast
    qed
    with e(3) j(2) show False by simp
  qed
  with d show ?thesis
    unfolding next_living_def by (intro bexI[of _ d]) auto
qed

lemma nextTurn_loop_nobody:
  assumes "alivePlayers g = []"
  shows "turnIndex (nextTurn_loop (length (players g)) g) = turnIndex g mod length (players g)"
proof (cases "length (players g) = 0")
  case True
  then show ?thesis by simp
next
  case False
  let ?n = "length (players g)"
  have n0: "0 < ?n" using False by simp
  from nextTurn_loop_turn[OF n0, of g] obtain d where d: "1 \<le> d" "d \<le> ?n"
    "turnIndex (nextTurn_loop ?n g) = (turnIndex g + d) mod ?n"
    "seat_alive g ((turnIndex g + d) mod ?n) \<or> d = ?n"
    by blast
  have "(turnIndex g + d) mod ?n < ?n" using n0 by simp
  then have "\<not> seat_alive g ((turnIndex g + d) mod ?n)" using assms alive_seat[of g] by blast
  with d(4) have "d = ?n" by simp
  with d(3) show ?thesis by simp
qed

lemma next_living_cong: "players g' = players g \<Longrightarrow> next_living g' = next_living g"
  using seat_alive_cong[of g' g] by (simp add: next_living_def fun_eq_iff)

lemma announce_turn_turn: "turnIndex (announce_turn g) = turnIndex (snd (currentPlayer g))"
  by (simp add: announce_turn_alt split: option.splits)

lemma settled_turn: "turn_settled g \<Longrightarrow> turnIndex (snd (currentPlayer g)) = turnIndex g"
  by (simp add: currentPlayer_settled)

text \<open>\<open>nextTurn\<close> followed by the \<open>currentPlayer\<close> call of a projection.\<close>

lemma turn_passed_nextTurn: "turn_passed g (snd (currentPlayer (nextTurn g)))"
proof (cases "gameOver g")
  case True
  then have "nextTurn g = g" by (simp add: nextTurn_def checkWin_def)
  moreover have "snd (currentPlayer g) = g" using True by (simp add: currentPlayer_def)
  ultimately show ?thesis using True by (simp add: turn_passed_def)
next
  case False
  show ?thesis
  proof (cases "length (alivePlayers g) = 1")
    case True
    then obtain a where a: "alivePlayers g = [a]" by (cases "alivePlayers g") auto
    let ?g1 = "push_log (name a @ '' wins!'') (g\<lparr>gameOver := True, winnerId := Some (pid a)\<rparr>)"
    have "checkWin g = ?g1" using False a by (simp add: checkWin_def)
    then have n: "nextTurn g = ?g1" by (simp add: nextTurn_def push_log_def)
    have c: "snd (currentPlayer ?g1) = ?g1" by (simp add: currentPlayer_def push_log_def)
    have "alivePlayers ?g1 = alivePlayers g" by (rule alivePlayers_cong) simp
    with a False show ?thesis unfolding n c by (simp add: turn_passed_def push_log_def)
  next
    case many: False
    let ?h = "nextTurn_loop (length (players g)) g"
    have "checkWin g = g" using False many
      by (cases "alivePlayers g" rule: list.exhaust[case_product list.exhaust])
         (auto simp: checkWin_def split: list.splits)
    then have n: "nextTurn g = announce_turn ?h" using False by (simp add: nextTurn_def)
    let ?g' = "snd (currentPlayer (nextTurn g))"
    have pl: "players ?g' = players g" by simp
    have al: "alivePlayers ?g' = alivePlayers g" by (rule alivePlayers_cong) simp
    have go: "\<not> gameOver ?g'" using False unfolding n by simp
    have wi: "winnerId ?g' = winnerId g" unfolding n by simp
    have t1: "turnIndex ?g' = turnIndex (announce_turn ?h)"
      unfolding n
      by (rule settled_turn) (simp add: turn_settled_cong[of "announce_turn ?h" "snd (currentPlayer ?h)"]
            announce_turn_turn currentPlayer_yields_settled)
    have t2: "turnIndex (announce_turn ?h) = turnIndex ?h"
    proof -
      have "turn_settled ?h"
      proof (cases "alivePlayers g = []")
        case True
        have "alivePlayers ?h = alivePlayers g" by (rule alivePlayers_cong) simp
        with True show ?thesis by (simp add: turn_settled_def)
      next
        case ne: False
        from nextTurn_loop_next[OF ne] have "seat_alive g (turnIndex ?h)"
          by (auto simp: next_living_def)
        moreover have "turnIndex ?h < length (players g)"
        proof -
          from ne alive_seat[of g] have "0 < length (players g)" by (cases "players g") simp_all
          then show ?thesis using nextTurn_loop_next[OF ne] by (auto simp: next_living_def)
        qed
        moreover have "isAlive ?h = isAlive g" by (rule isAlive_cong) simp
        ultimately show ?thesis by (simp add: turn_settled_def seat_alive_def)
      qed
      then show ?thesis by (simp add: announce_turn_turn settled_turn)
    qed
    show ?thesis
    proof (cases "alivePlayers g = []")
      case True
      with False many go wi al pl t1 t2 nextTurn_loop_nobody[OF True] show ?thesis
        by (simp add: turn_passed_def)
    next
      case ne: False
      have "next_living ?g' = next_living g" by (rule next_living_cong) simp
      with False many go wi al ne t1 t2 nextTurn_loop_next[OF ne] show ?thesis
        by (simp add: turn_passed_def)
    qed
  qed
qed

lemma turn_passed_left:
  "gameOver h = gameOver g \<Longrightarrow> winnerId h = winnerId g \<Longrightarrow> turnIndex h = turnIndex g
     \<Longrightarrow> turn_passed h g' = turn_passed g g'"
  by (simp add: turn_passed_def)

lemma turn_passed_finishTurn: "turn_passed g (snd (finishTurn g))"
proof -
  have "turn_passed (g\<lparr>pendingAction := None\<rparr>) (snd (finishTurn g))"
    unfolding finishTurn_def result_snd by (rule turn_passed_nextTurn)
  moreover have "turn_passed (g\<lparr>pendingAction := None\<rparr>) (snd (finishTurn g))
               = turn_passed g (snd (finishTurn g))"
    by (rule turn_passed_left) simp_all
  ultimately show ?thesis by simp
qed

lemma map_first_nth_other:
  "j < length ps \<Longrightarrow> \<not> P (ps ! j) \<Longrightarrow> map_first P f ps ! j = ps ! j"
  by (induction ps arbitrary: j) (auto simp: nth_Cons split: nat.splits)

section \<open>The ids of the options of an exchange\<close>

lemma show_nat_read:
  "foldl (\<lambda>a c. 10 * a + ((of_char c :: nat) - 48)) 0 (show_nat n) = n"
proof (induction n rule: show_nat.induct)
  case (1 n)
  show ?case
  proof (cases "n < 10")
    case True
    then show ?thesis by (subst show_nat.simps) simp
  next
    case False
    have "n mod 10 < 10" by simp
    then have d: "(of_char (char_of (48 + n mod 10)) :: nat) = 48 + n mod 10" by simp
    from 1[OF False] False d show ?thesis by (subst show_nat.simps) simp
  qed
qed

lemma show_nat_inj: "show_nat m = show_nat n \<Longrightarrow> m = n"
  by (metis show_nat_read)

lemma hand_options_ids:
  "map opt_id (hand_options cs) = map (\<lambda>sq. ''h'' @ show_nat sq) [0 ..< length (unrevealed_slots cs)]"
proof -
  have "map opt_id (hand_options cs)
      = map ((\<lambda>sq. ''h'' @ show_nat sq) \<circ> fst) (zip [0 ..< length (unrevealed_slots cs)] (unrevealed_slots cs))"
    by (simp add: hand_options_def comp_def case_prod_beta del: show_nat.simps)
  also have "\<dots> = map (\<lambda>sq. ''h'' @ show_nat sq) [0 ..< length (unrevealed_slots cs)]"
    by (metis (no_types) length_upt diff_zero map_fst_zip map_map)
  finally show ?thesis .
qed

lemma startExchangeChoice_ids:
  assumes "getPlayer g a = Some actor" and "unrevealed_slots (influence actor) \<noteq> []"
  shows "\<exists>sec. private_exchange (snd (startExchangeChoice g a)) = (private_exchange g)(a \<mapsto> sec)
          \<and> distinct (map opt_id (options sec))"
proof -
  let ?kc = "length (unrevealed_slots (influence actor))"
  let ?sec = "\<lparr>sec_keepCount = ?kc,
               options = hand_options (influence actor) @
                 [\<lparr>opt_id = ''d'' @ show_nat ?kc,
                   opt_role = fst (draw g), source = Drawn, handIndex = None\<rparr>,
                  \<lparr>opt_id = ''d'' @ show_nat (?kc + 1),
                   opt_role = fst (draw (snd (draw g))), source = Drawn, handIndex = None\<rparr>]\<rparr>"
  obtain d1 g1 where d1: "draw g = (d1, g1)" by (cases "draw g")
  obtain d2 g2 where d2: "draw g1 = (d2, g2)" by (cases "draw g1")
  have pe: "private_exchange g2 = private_exchange g"
    using draw_fields[of g] draw_fields[of g1] d1 d2 by (metis snd_conv)
  have e: "private_exchange (snd (startExchangeChoice g a)) = (private_exchange g)(a \<mapsto> ?sec)"
    using assms d1 d2 pe
    by (simp add: startExchangeChoice_def Let_def hand_options_def del: show_nat.simps)
  have inj: "inj (\<lambda>sq. ''h'' @ show_nat sq)"
    by (rule injI) (simp del: show_nat.simps, rule show_nat_inj)
  have "distinct (map (\<lambda>sq. ''h'' @ show_nat sq) [0 ..< ?kc])"
  proof -
    have "inj_on (\<lambda>sq. ''h'' @ show_nat sq) (set [0 ..< ?kc])"
      using inj by (rule inj_on_subset) simp
    then show ?thesis by (simp add: distinct_map del: show_nat.simps)
  qed
  moreover have "''d'' @ show_nat ?kc \<noteq> ''d'' @ show_nat (?kc + 1)"
    using show_nat_inj[of ?kc "?kc + 1"] by (auto simp del: show_nat.simps)
  ultimately have "distinct (map opt_id (options ?sec))"
    by (auto simp: hand_options_ids simp del: show_nat.simps)
  with e show ?thesis by blast
qed

lemma private_applySteal [simp]: "private_exchange (applySteal g a t) = private_exchange g"
  by (simp add: applySteal_def Let_def split: option.splits)

lemma option_ids_cong:
  "private_exchange g' = private_exchange g \<Longrightarrow> option_ids_distinct g' = option_ids_distinct g"
  by (simp add: option_ids_distinct_def)

lemma option_ids_result [simp]: "option_ids_distinct (snd (result g ps)) = option_ids_distinct g"
  by (rule option_ids_cong) simp

lemma option_ids_finishTurn [simp]: "option_ids_distinct (snd (finishTurn g)) = option_ids_distinct g"
  by (rule option_ids_cong) simp

lemma option_ids_start:
  assumes "option_ids_distinct g"
  shows "option_ids_distinct (snd (startExchangeChoice g a))"
proof (cases "getPlayer g a")
  case None
  then have "startExchangeChoice g a = result g []" by (simp add: startExchangeChoice_def)
  with assms show ?thesis by simp
next
  case (Some actor)
  show ?thesis
  proof (cases "unrevealed_slots (influence actor) = []")
    case True
    with Some have "startExchangeChoice g a = finishTurn g" by (simp add: startExchangeChoice_def)
    with assms show ?thesis by simp
  next
    case False
    from startExchangeChoice_ids[OF Some False] obtain sec where
      e: "private_exchange (snd (startExchangeChoice g a)) = (private_exchange g)(a \<mapsto> sec)"
      and d: "distinct (map opt_id (options sec))" by blast
    have "ran ((private_exchange g)(a \<mapsto> sec)) \<subseteq> insert sec (ran (private_exchange g))"
      by (auto simp: ran_def split: if_splits)
    with assms d show ?thesis unfolding option_ids_distinct_def e by blast
  qed
qed

lemma option_ids_continue:
  assumes "option_ids_distinct g"
  shows "option_ids_distinct (snd (continueAfterLoseInfluence g c))"
proof -
  have "option_ids_distinct (h\<lparr>pendingAction := p\<rparr>) = option_ids_distinct h" for h p
    by (rule option_ids_cong) simp
  moreover have "option_ids_distinct (push_log m h) = option_ids_distinct h" for h m
    by (rule option_ids_cong) simp
  moreover have "option_ids_distinct (applySteal h a t) = option_ids_distinct h" for h a t
    by (rule option_ids_cong) simp
  moreover have "option_ids_distinct (beginLoseInfluence h p r k) = option_ids_distinct h" for h p r k
    by (rule option_ids_cong) simp
  ultimately show ?thesis
    using assms option_ids_start[OF assms]
    by (auto simp: continueAfterLoseInfluence_def split: option.splits cont.splits)
qed

lemma option_ids_handleLoseInfluence:
  assumes "option_ids_distinct g" and "handleLoseInfluence g pa k rt pl = Inr x"
  shows "option_ids_distinct (snd x)"
  using handleLoseInfluence_cases[OF assms(2)]
proof
  assume "x = result g []"
  with assms show ?thesis by simp
next
  assume h: "Some k = playerId pa \<and> rt = ''loseInfluence'' \<and> fst (loseInfluence g (Some k) (p_cardIndex pl))
          \<and> x = continueAfterLoseInfluence
                  ((snd (loseInfluence g (Some k) (p_cardIndex pl)))\<lparr>pendingAction := None\<rparr>)
                  (continuation pa)"
  have "option_ids_distinct ((snd (loseInfluence g (Some k) (p_cardIndex pl)))\<lparr>pendingAction := None\<rparr>)
      = option_ids_distinct g"
    by (rule option_ids_cong) simp
  with assms(1) have "option_ids_distinct (snd (continueAfterLoseInfluence
                  ((snd (loseInfluence g (Some k) (p_cardIndex pl)))\<lparr>pendingAction := None\<rparr>)
                  (continuation pa)))"
    by (intro option_ids_continue) simp
  with h show ?thesis by simp
qed

lemma option_ids_handleExchangeChoice:
  assumes "option_ids_distinct g" and "handleExchangeChoice g pa k rt pl = Inr x"
  shows "option_ids_distinct (snd x)"
  using assms(2)
proof (cases rule: handleExchangeChoice_cases)
  case rejected
  with assms(1) show ?thesis by simp
next
  case (accepted sec actor)
  have "private_exchange (snd x) = (private_exchange g)(Some k := None)"
    unfolding accepted(8) by simp
  moreover have "ran ((private_exchange g)(Some k := None)) \<subseteq> ran (private_exchange g)"
    by (auto simp: ran_def split: if_splits)
  ultimately show ?thesis using assms(1) unfolding option_ids_distinct_def by auto
qed

lemma option_ids_handleExchangeChallenge:
  assumes "option_ids_distinct g" and "handleExchangeChallenge g pa k rt = Inr x"
  shows "option_ids_distinct (snd x)"
proof -
  have m: "option_ids_distinct (mark g pa k v)" for v
    using assms(1) option_ids_cong[of "mark g pa k v" g] by simp
  have "option_ids_distinct (snd (startExchangeChoice (mark g pa k v) a))" for v a
    by (rule option_ids_start) (rule m)
  moreover have "private_exchange (snd y) = private_exchange g \<Longrightarrow> option_ids_distinct (snd y)" for y
    using assms(1) by (simp add: option_ids_distinct_def)
  ultimately show ?thesis
    using assms unfolding handleExchangeChallenge_def Let_def
    by (auto split: if_splits option.splits)
qed

lemma private_handleTax:
  "handleTax g pa k rt = Inr x \<Longrightarrow> private_exchange (snd x) = private_exchange g"
  unfolding handleTax_def Let_def by (auto split: if_splits option.splits)

lemma private_handleForeignAidBlock:
  "handleForeignAidBlock g pa k rt pl = Inr x \<Longrightarrow> private_exchange (snd x) = private_exchange g"
  unfolding handleForeignAidBlock_def Let_def by (auto split: if_splits option.splits)

lemma private_handleForeignAidChallengeBlock:
  "handleForeignAidChallengeBlock g pa k rt = Inr x \<Longrightarrow> private_exchange (snd x) = private_exchange g"
  unfolding handleForeignAidChallengeBlock_def Let_def by (auto split: if_splits option.splits)

lemma private_handleAssassinateChallenge:
  "handleAssassinateChallenge g pa k rt = Inr x \<Longrightarrow> private_exchange (snd x) = private_exchange g"
  unfolding handleAssassinateChallenge_def Let_def by (auto split: if_splits option.splits)

lemma private_handleAssassinateBlock:
  "handleAssassinateBlock g pa k rt pl = Inr x \<Longrightarrow> private_exchange (snd x) = private_exchange g"
  unfolding handleAssassinateBlock_def Let_def by (auto split: if_splits option.splits)

lemma private_handleAssassinateChallengeBlock:
  "handleAssassinateChallengeBlock g pa k rt = Inr x \<Longrightarrow> private_exchange (snd x) = private_exchange g"
  unfolding handleAssassinateChallengeBlock_def Let_def by (auto split: if_splits option.splits)

lemma private_handleStealChallenge:
  "handleStealChallenge g pa k rt = Inr x \<Longrightarrow> private_exchange (snd x) = private_exchange g"
  unfolding handleStealChallenge_def Let_def by (auto split: if_splits option.splits)

lemma private_handleStealBlock:
  "handleStealBlock g pa k rt pl = Inr x \<Longrightarrow> private_exchange (snd x) = private_exchange g"
  unfolding handleStealBlock_def Let_def by (auto split: if_splits option.splits)

lemma private_handleStealChallengeBlock:
  "handleStealChallengeBlock g pa k rt = Inr x \<Longrightarrow> private_exchange (snd x) = private_exchange g"
  unfolding handleStealChallengeBlock_def Let_def by (auto split: if_splits option.splits)

lemma private_resolveAction:
  "private_exchange (snd (resolveAction g aid ty tid)) = private_exchange g"
proof (cases "getPlayer g (Some aid)")
  case None
  then show ?thesis by (simp add: resolveAction_def)
next
  case (Some actor)
  have "private_exchange (snd (resolve_coup g actor tid)) = private_exchange g"
    by (simp add: resolve_coup_def Let_def split: option.splits)
  moreover have "private_exchange (snd (resolve_assassinate g actor tid)) = private_exchange g"
    by (simp add: resolve_assassinate_def Let_def split: option.splits)
  moreover have "private_exchange (snd (resolve_steal g actor tid)) = private_exchange g"
    by (simp add: resolve_steal_def Let_def split: option.splits)
  ultimately show ?thesis using Some by (simp add: resolveAction_def Let_def)
qed

lemma option_ids_handleResponse:
  assumes "option_ids_distinct g" and "handleResponse g k rt pl = Inr x"
  shows "option_ids_distinct (snd x)"
proof -
  have same: "private_exchange (snd x) = private_exchange g \<Longrightarrow> option_ids_distinct (snd x)"
    using assms(1) by (simp add: option_ids_distinct_def)
  from assms(2) show ?thesis
  proof (cases rule: handleResponse_cases)
    case idle
    with assms(1) show ?thesis by simp
  next
    case (lose pa)
    from option_ids_handleLoseInfluence[OF assms(1) lose(3)] show ?thesis .
  next
    case (tax pa)
    from private_handleTax[OF tax(4)] show ?thesis by (rule same)
  next
    case (aid_block pa)
    from private_handleForeignAidBlock[OF aid_block(4)] show ?thesis by (rule same)
  next
    case (aid_challenge pa)
    from private_handleForeignAidChallengeBlock[OF aid_challenge(4)] show ?thesis by (rule same)
  next
    case (ass_challenge pa)
    from private_handleAssassinateChallenge[OF ass_challenge(4)] show ?thesis by (rule same)
  next
    case (ass_block pa)
    from private_handleAssassinateBlock[OF ass_block(4)] show ?thesis by (rule same)
  next
    case (ass_challenge_block pa)
    from private_handleAssassinateChallengeBlock[OF ass_challenge_block(4)] show ?thesis by (rule same)
  next
    case (steal_challenge pa)
    from private_handleStealChallenge[OF steal_challenge(4)] show ?thesis by (rule same)
  next
    case (steal_block pa)
    from private_handleStealBlock[OF steal_block(4)] show ?thesis by (rule same)
  next
    case (steal_challenge_block pa)
    from private_handleStealChallengeBlock[OF steal_challenge_block(4)] show ?thesis by (rule same)
  next
    case (exch_challenge pa)
    from option_ids_handleExchangeChallenge[OF assms(1) exch_challenge(4)] show ?thesis .
  next
    case (exch_choice pa)
    from option_ids_handleExchangeChoice[OF assms(1) exch_choice(4)] show ?thesis .
  qed
qed

lemma reachable_option_ids: "reachable g \<Longrightarrow> option_ids_distinct g"
proof (induction rule: reachable.induct)
  case (start ps tape)
  show ?case by (simp add: option_ids_distinct_def GameEngine_frame)
next
  case (action g cur g1 aid actionType tid)
  have g1: "g1 = snd (currentPlayer g)" using action.hyps(2) by simp
  have "option_ids_distinct (snd (resolveAction g1 aid actionType tid)) = option_ids_distinct g"
    by (rule option_ids_cong) (simp add: private_resolveAction g1)
  with action.IH show ?case by simp
next
  case (response g k responseType pl out g')
  from option_ids_handleResponse[OF response.IH response.hyps(2)] show ?case by simp
next
  case (projection g viewerId)
  have "option_ids_distinct (snd (getStateFor g viewerId)) = option_ids_distinct g"
    by (rule option_ids_cong) (simp add: getStateFor_snd)
  with projection.IH show ?case by simp
next
  case (chance g tape)
  have "option_ids_distinct (g\<lparr>random_tape := tape\<rparr>) = option_ids_distinct g"
    by (rule option_ids_cong) simp
  with chance.IH show ?case by simp
qed

text \<open>
  The hypothesis of the theorem on the exchange choice, in every game in play: the options
  stored for a player have pairwise different ids.
\<close>

lemma reachable_secret_ids:
  assumes "reachable g" and "private_exchange g k = Some sec"
  shows "distinct (map opt_id (options sec))"
  using reachable_option_ids[OF assms(1)] assms(2) by (auto simp: option_ids_distinct_def ran_def)

section \<open>The exchange choice\<close>

text \<open>
  C6. Let an exchange wait for the choice of the actor, whose secret entry holds options
  with pairwise different ids (every game in play has them so, by \<open>reachable_secret_ids\<close>),
  and let the actor submit \<open>keep\<close>.
  \<^item> If the distinct ids of \<open>keep\<close> do not number \<open>keepCount\<close>, or one of them is not the
    id of a stored option, the resolver returns the game unchanged (so the stage is still
    \<open>awaitingChoice\<close> and the secret entry is still there).
  \<^item> Otherwise (the actor having \<open>keepCount\<close> unrevealed slots) the chosen options are the
    stored options whose id was submitted, in the order of the store; the \<open>j\<close>-th
    unrevealed slot of the actor's hand holds the role of the \<open>j\<close>-th chosen option,
    unrevealed, and revealed slots keep their cards; the deck has gained the roles of the
    options not chosen; the secret entry of the actor is deleted; no action is pending;
    the players with another id are as they were; and the turn has passed as \<open>nextTurn\<close>
    passes it (\<open>turn_passed\<close>): if one player only is alive the game is over and that
    player has won, otherwise the game goes on and the turn pointer is on the next living
    seat after the one it was on.
\<close>

theorem exchange_choice_validated:
  assumes pend: "pendingAction g = Some pa" "ptype pa = ExchangeT" "stage pa = AwaitingChoice"
      "actorId pa = Some k"
    and sec: "private_exchange g (Some k) = Some sec" and ids: "distinct (map opt_id (options sec))"
    and keep: "keep = (case p_keep pl of None \<Rightarrow> [] | Some ks \<Rightarrow> ks)"
    and settled: "turn_settled g"
  shows "(length (remdups keep) \<noteq> sec_keepCount sec \<or> \<not> set keep \<subseteq> set (map opt_id (options sec))
            \<longrightarrow> (\<exists>out. handleResponse g k ''exchangeChoice'' pl = Inr (out, g)))
       \<and> (length (remdups keep) = sec_keepCount sec \<and> set keep \<subseteq> set (map opt_id (options sec))
            \<and> getPlayer g (Some k) = Some actor
            \<and> length (unrevealed_slots (influence actor)) = sec_keepCount sec
            \<longrightarrow> (\<exists>out g' hand.
                    handleResponse g k ''exchangeChoice'' pl = Inr (out, g')
                  \<and> hand_of g' (Some k) = Some hand \<and> length hand = length (influence actor)
                  \<and> (\<forall>j < sec_keepCount sec.
                        hand ! (unrevealed_slots (influence actor) ! j)
                          = \<lparr>role = opt_role (filter (\<lambda>e. opt_id e \<in> set keep) (options sec) ! j),
                             revealed = False\<rparr>)
                  \<and> (\<forall>i < length (influence actor).
                        revealed (influence actor ! i) \<longrightarrow> hand ! i = influence actor ! i)
                  \<and> mset (deck g') = mset (deck g)
                        + mset (map opt_role (filter (\<lambda>e. opt_id e \<notin> set keep) (options sec)))
                  \<and> private_exchange g' (Some k) = None
                  \<and> pendingAction g' = None
                  \<and> length (players g') = length (players g)
                  \<and> (\<forall>j < length (players g).
                        pid (players g ! j) \<noteq> k \<longrightarrow> players g' ! j = players g ! j)
                  \<and> turn_passed g g'))"
proof -
  have disp: "handleResponse g k ''exchangeChoice'' pl = handleExchangeChoice g pa k ''exchangeChoice'' pl"
    using pend by (simp add: handleResponse_def)
  let ?chosen = "filter (\<lambda>e. opt_id e \<in> set keep) (options sec)"
  let ?unchosen = "filter (\<lambda>e. opt_id e \<notin> set keep) (options sec)"
  have rej: "length (remdups keep) \<noteq> sec_keepCount sec \<or> \<not> set keep \<subseteq> set (map opt_id (options sec))
            \<longrightarrow> (\<exists>out. handleResponse g k ''exchangeChoice'' pl = Inr (out, g))"
  proof
    assume h: "length (remdups keep) \<noteq> sec_keepCount sec \<or> \<not> set keep \<subseteq> set (map opt_id (options sec))"
    have "length (remdups keep) \<noteq> sec_keepCount sec \<or> length ?chosen \<noteq> sec_keepCount sec"
    proof (cases "length (remdups keep) = sec_keepCount sec")
      case True
      with h have "\<not> set keep \<subseteq> set (map opt_id (options sec))" by simp
      from chosen_some_unknown[OF ids this] True show ?thesis by simp
    qed simp
    then have "handleExchangeChoice g pa k ''exchangeChoice'' pl = Inr (result g [])"
      using pend sec keep by (auto simp: handleExchangeChoice_def Let_def)
    then have "handleResponse g k ''exchangeChoice'' pl = Inr (fst (result g []), g)"
      using result_settled[OF settled, of "[]"] disp by (metis prod.collapse)
    then show "\<exists>out. handleResponse g k ''exchangeChoice'' pl = Inr (out, g)" by blast
  qed
  have acc: "length (remdups keep) = sec_keepCount sec \<and> set keep \<subseteq> set (map opt_id (options sec))
            \<and> getPlayer g (Some k) = Some actor
            \<and> length (unrevealed_slots (influence actor)) = sec_keepCount sec
            \<longrightarrow> (\<exists>out g' hand.
                    handleResponse g k ''exchangeChoice'' pl = Inr (out, g')
                  \<and> hand_of g' (Some k) = Some hand \<and> length hand = length (influence actor)
                  \<and> (\<forall>j < sec_keepCount sec.
                        hand ! (unrevealed_slots (influence actor) ! j)
                          = \<lparr>role = opt_role (?chosen ! j), revealed = False\<rparr>)
                  \<and> (\<forall>i < length (influence actor).
                        revealed (influence actor ! i) \<longrightarrow> hand ! i = influence actor ! i)
                  \<and> mset (deck g') = mset (deck g) + mset (map opt_role ?unchosen)
                  \<and> private_exchange g' (Some k) = None
                  \<and> pendingAction g' = None
                  \<and> length (players g') = length (players g)
                  \<and> (\<forall>j < length (players g).
                        pid (players g ! j) \<noteq> k \<longrightarrow> players g' ! j = players g ! j)
                  \<and> turn_passed g g')"
  proof
    assume h: "length (remdups keep) = sec_keepCount sec \<and> set keep \<subseteq> set (map opt_id (options sec))
            \<and> getPlayer g (Some k) = Some actor
            \<and> length (unrevealed_slots (influence actor)) = sec_keepCount sec"
    let ?slots = "unrevealed_slots (influence actor)"
    let ?hand = "replace_slots (influence actor) ?slots ?chosen"
    let ?g1 = "update_player (Some k) (\<lambda>p. p\<lparr>influence := replace_slots (influence p) ?slots ?chosen\<rparr>) g"
    let ?g3 = "(returnToDeck (map opt_role ?unchosen) ?g1)\<lparr>private_exchange := (private_exchange g)(Some k := None)\<rparr>"
    let ?g4 = "push_log (name actor @ '' completes Exchange.'') ?g3"
    let ?x = "finishTurn ?g4"
    have lc: "length ?chosen = sec_keepCount sec"
      using chosen_all_known[OF ids, of keep] h by simp
    have eq: "handleResponse g k ''exchangeChoice'' pl = Inr ?x"
      using pend sec keep h lc by (simp add: disp handleExchangeChoice_def Let_def)
    have "getPlayer ?g1 (Some k) = Some (actor\<lparr>influence := ?hand\<rparr>)"
      using h by (simp add: getPlayer_update_player)
    then have "hand_of ?g1 (Some k) = Some ?hand" by (simp add: hand_of_def)
    moreover have "hand_of ?g3 = hand_of ?g1" by (rule hand_of_cong) simp
    ultimately have hand: "hand_of (snd ?x) (Some k) = Some ?hand" by simp
    have new: "\<forall>j < sec_keepCount sec.
                 ?hand ! (?slots ! j) = \<lparr>role = opt_role (?chosen ! j), revealed = False\<rparr>"
    proof (intro allI impI)
      fix j assume j: "j < sec_keepCount sec"
      then have "?slots ! j \<in> set ?slots" using h by simp
      then have "?slots ! j < length (influence actor)" by (simp add: unrevealed_slots_set)
      then show "?hand ! (?slots ! j) = \<lparr>role = opt_role (?chosen ! j), revealed = False\<rparr>"
        using j h lc by (intro replace_slots_new) simp_all
    qed
    have old: "\<forall>i < length (influence actor). revealed (influence actor ! i) \<longrightarrow> ?hand ! i = influence actor ! i"
      by (auto intro!: replace_slots_kept simp: unrevealed_slots_set)
    have dk: "mset (deck (snd ?x)) = mset (deck g) + mset (map opt_role ?unchosen)" by simp
    have px: "private_exchange (snd ?x) (Some k) = None" by simp
    have pn: "pendingAction (snd ?x) = None" by simp
    have ps: "players (snd ?x) = map_first (\<lambda>p. Some (pid p) = Some k)
                 (\<lambda>p. p\<lparr>influence := replace_slots (influence p) ?slots ?chosen\<rparr>) (players g)"
      by (simp add: update_player_def)
    have ln: "length (players (snd ?x)) = length (players g)" unfolding ps by simp
    have ot: "\<forall>j < length (players g). pid (players g ! j) \<noteq> k \<longrightarrow> players (snd ?x) ! j = players g ! j"
      unfolding ps by (simp add: map_first_nth_other)
    have "turn_passed ?g4 (snd ?x)" by (rule turn_passed_finishTurn)
    moreover have "turn_passed ?g4 (snd ?x) = turn_passed g (snd ?x)"
      by (rule turn_passed_left) simp_all
    ultimately have tp: "turn_passed g (snd ?x)" by simp
    have "\<exists>hand. hand_of (snd ?x) (Some k) = Some hand \<and> length hand = length (influence actor)
                  \<and> (\<forall>j < sec_keepCount sec.
                        hand ! (?slots ! j) = \<lparr>role = opt_role (?chosen ! j), revealed = False\<rparr>)
                  \<and> (\<forall>i < length (influence actor).
                        revealed (influence actor ! i) \<longrightarrow> hand ! i = influence actor ! i)
                  \<and> mset (deck (snd ?x)) = mset (deck g) + mset (map opt_role ?unchosen)
                  \<and> private_exchange (snd ?x) (Some k) = None
                  \<and> pendingAction (snd ?x) = None
                  \<and> length (players (snd ?x)) = length (players g)
                  \<and> (\<forall>j < length (players g).
                        pid (players g ! j) \<noteq> k \<longrightarrow> players (snd ?x) ! j = players g ! j)
                  \<and> turn_passed g (snd ?x)"
      using hand new old dk px pn ln ot tp by (intro exI[of _ ?hand] conjI) simp_all
    then show "\<exists>out g' hand.
                    handleResponse g k ''exchangeChoice'' pl = Inr (out, g')
                  \<and> hand_of g' (Some k) = Some hand \<and> length hand = length (influence actor)
                  \<and> (\<forall>j < sec_keepCount sec.
                        hand ! (?slots ! j) = \<lparr>role = opt_role (?chosen ! j), revealed = False\<rparr>)
                  \<and> (\<forall>i < length (influence actor).
                        revealed (influence actor ! i) \<longrightarrow> hand ! i = influence actor ! i)
                  \<and> mset (deck g') = mset (deck g) + mset (map opt_role ?unchosen)
                  \<and> private_exchange g' (Some k) = None
                  \<and> pendingAction g' = None
                  \<and> length (players g') = length (players g)
                  \<and> (\<forall>j < length (players g).
                        pid (players g ! j) \<noteq> k \<longrightarrow> players g' ! j = players g ! j)
                  \<and> turn_passed g g'"
      by (rule Inr_pair_ex1I[OF eq])
  qed
  show ?thesis by (intro conjI rej acc)
qed

theorem exchange_choice_validated_witness:
  "turn_settled demo_exchange
   \<and> private_exchange demo_exchange (Some ''c'') = Some demo_secret
   \<and> distinct (map opt_id (options demo_secret))
   \<and> length (remdups [''h0'', ''h0'']) \<noteq> sec_keepCount demo_secret
   \<and> (\<exists>out. handleResponse demo_exchange ''c'' ''exchangeChoice''
               \<lparr>p_role = None, p_cardIndex = None, p_keep = Some [''h0'', ''h0'']\<rparr>
             = Inr (out, demo_exchange))
   \<and> \<not> set [''h0'', ''zz''] \<subseteq> set (map opt_id (options demo_secret))
   \<and> (\<exists>out. handleResponse demo_exchange ''c'' ''exchangeChoice''
               \<lparr>p_role = None, p_cardIndex = None, p_keep = Some [''h0'', ''zz'']\<rparr>
             = Inr (out, demo_exchange))
   \<and> (\<exists>out g' hand. handleResponse demo_exchange ''c'' ''exchangeChoice''
               \<lparr>p_role = None, p_cardIndex = None, p_keep = Some [''d3'', ''h1'']\<rparr>
             = Inr (out, g')
         \<and> hand_of g' (Some ''c'') = Some hand \<and> length hand = 2
         \<and> hand ! 0 = \<lparr>role = ''Captain'', revealed = False\<rparr>
         \<and> hand ! 1 = \<lparr>role = ''Contessa'', revealed = False\<rparr>
         \<and> mset (deck g') = mset (deck demo_exchange) + {#''Ambassador'', ''Duke''#}
         \<and> private_exchange g' (Some ''c'') = None \<and> pendingAction g' = None
         \<and> players g' ! 0 = demo_players ! 0 \<and> players g' ! 1 = demo_players ! 1
         \<and> turn_passed demo_exchange g'
         \<and> turnIndex demo_exchange = 2 \<and> turnIndex g' = 0 \<and> \<not> gameOver g')"
proof -
  let ?pa = "(pending_obj ExchangeT AwaitingChoice)\<lparr>actorId := Some ''c'', keepCount := Some 2\<rparr>"
  let ?pl = "\<lambda>ks. \<lparr>p_role = None, p_cardIndex = None, p_keep = Some ks\<rparr>"
  have pend: "pendingAction demo_exchange = Some ?pa" "ptype ?pa = ExchangeT"
    "stage ?pa = AwaitingChoice" "actorId ?pa = Some ''c''"
    by (simp_all add: demo_exchange_def pending_obj_def)
  have sec: "private_exchange demo_exchange (Some ''c'') = Some demo_secret"
    by (simp add: demo_exchange_def)
  have ids: "distinct (map opt_id (options demo_secret))" by (simp add: demo_secret_def)
  have settled: "turn_settled demo_exchange"
    by (simp add: turn_settled_def isAlive_def getPlayer_def demo_exchange_def demo_game_def
                  demo_players_def unrevealed_def)
  have keep: "ks = (case p_keep (?pl ks) of None \<Rightarrow> [] | Some ks \<Rightarrow> ks)" for ks by simp
  note inst = exchange_choice_validated [OF pend sec ids keep settled]
  have r1: "length (remdups [''h0'', ''h0'']) \<noteq> sec_keepCount demo_secret"
    by (simp add: demo_secret_def)
  have w1: "\<exists>out. handleResponse demo_exchange ''c'' ''exchangeChoice'' (?pl [''h0'', ''h0''])
             = Inr (out, demo_exchange)"
    using inst[of "[''h0'', ''h0'']"] r1 by blast
  have r2: "\<not> set [''h0'', ''zz''] \<subseteq> set (map opt_id (options demo_secret))"
    by (simp add: demo_secret_def)
  have w2: "\<exists>out. handleResponse demo_exchange ''c'' ''exchangeChoice'' (?pl [''h0'', ''zz''])
             = Inr (out, demo_exchange)"
    using inst[of "[''h0'', ''zz'']"] r2 by blast
  have actor: "getPlayer demo_exchange (Some ''c'') = Some (demo_players ! 2)"
    by (simp add: getPlayer_def demo_exchange_def demo_game_def demo_players_def)
  have slots: "unrevealed_slots (influence (demo_players ! 2)) = [0, 1]"
    by (simp add: unrevealed_slots_def demo_players_def upt_rec)
  have a3: "length (remdups [''d3'', ''h1'']) = sec_keepCount demo_secret
            \<and> set [''d3'', ''h1''] \<subseteq> set (map opt_id (options demo_secret))
            \<and> getPlayer demo_exchange (Some ''c'') = Some (demo_players ! 2)
            \<and> length (unrevealed_slots (influence (demo_players ! 2))) = sec_keepCount demo_secret"
    using actor slots by (simp add: demo_secret_def)
  from inst[of "[''d3'', ''h1'']" "demo_players ! 2"] a3
  obtain out g' hand where
    o: "handleResponse demo_exchange ''c'' ''exchangeChoice'' (?pl [''d3'', ''h1'']) = Inr (out, g')"
      "hand_of g' (Some ''c'') = Some hand" "length hand = length (influence (demo_players ! 2))"
      "\<forall>j < sec_keepCount demo_secret.
          hand ! (unrevealed_slots (influence (demo_players ! 2)) ! j)
            = \<lparr>role = opt_role (filter (\<lambda>e. opt_id e \<in> set [''d3'', ''h1'']) (options demo_secret) ! j),
               revealed = False\<rparr>"
      "mset (deck g') = mset (deck demo_exchange)
          + mset (map opt_role (filter (\<lambda>e. opt_id e \<notin> set [''d3'', ''h1'']) (options demo_secret)))"
      "private_exchange g' (Some ''c'') = None" "pendingAction g' = None"
      "\<forall>j < length (players demo_exchange).
          pid (players demo_exchange ! j) \<noteq> ''c'' \<longrightarrow> players g' ! j = players demo_exchange ! j"
      "turn_passed demo_exchange g'"
    by blast
  have kc: "sec_keepCount demo_secret = 2" by (simp add: demo_secret_def)
  from o(4)[rule_format, of 0] o(4)[rule_format, of 1]
  have "hand ! ([0, 1] ! 0) = \<lparr>role = ''Captain'', revealed = False\<rparr>"
    "hand ! ([0, 1] ! 1) = \<lparr>role = ''Contessa'', revealed = False\<rparr>"
    unfolding slots kc by (simp_all add: demo_secret_def)
  then have h01: "hand ! 0 = \<lparr>role = ''Captain'', revealed = False\<rparr>"
    "hand ! 1 = \<lparr>role = ''Contessa'', revealed = False\<rparr>" by simp_all
  have len: "length hand = 2" using o(3) by (simp add: demo_players_def)
  have dk: "mset (deck g') = mset (deck demo_exchange) + {#''Ambassador'', ''Duke''#}"
    using o(5) by (simp add: demo_secret_def)
  have pls: "players demo_exchange = demo_players" by (simp add: demo_exchange_def demo_game_def)
  from o(8)[rule_format, of 0] o(8)[rule_format, of 1]
  have oth: "players g' ! 0 = demo_players ! 0" "players g' ! 1 = demo_players ! 1"
    unfolding pls by (simp_all add: demo_players_def)
  have t2: "turnIndex demo_exchange = 2" by (simp add: demo_exchange_def)
  have g': "after_response demo_exchange ''c'' ''exchangeChoice'' (?pl [''d3'', ''h1'']) = g'"
    by (simp add: after_response_def o(1))
  have "turnIndex (after_response demo_exchange ''c'' ''exchangeChoice'' (?pl [''d3'', ''h1''])) = 0
        \<and> \<not> gameOver (after_response demo_exchange ''c'' ''exchangeChoice'' (?pl [''d3'', ''h1'']))"
    by code_simp
  then have t0: "turnIndex g' = 0" "\<not> gameOver g'" unfolding g' by simp_all
  have w3: "\<exists>out g' hand. handleResponse demo_exchange ''c'' ''exchangeChoice'' (?pl [''d3'', ''h1''])
             = Inr (out, g')
         \<and> hand_of g' (Some ''c'') = Some hand \<and> length hand = 2
         \<and> hand ! 0 = \<lparr>role = ''Captain'', revealed = False\<rparr>
         \<and> hand ! 1 = \<lparr>role = ''Contessa'', revealed = False\<rparr>
         \<and> mset (deck g') = mset (deck demo_exchange) + {#''Ambassador'', ''Duke''#}
         \<and> private_exchange g' (Some ''c'') = None \<and> pendingAction g' = None
         \<and> players g' ! 0 = demo_players ! 0 \<and> players g' ! 1 = demo_players ! 1
         \<and> turn_passed demo_exchange g'
         \<and> turnIndex demo_exchange = 2 \<and> turnIndex g' = 0 \<and> \<not> gameOver g'"
    using o(1,2,6,7,9) h01 len dk oth t2 t0 by blast
  show ?thesis by (intro conjI settled sec ids r1 w1 r2 w2 w3)
qed

section \<open>Challenges by a player whose identifier is empty\<close>

lemma after_response_reachable: "reachable g \<Longrightarrow> reachable (after_response g k rt pl)"
  unfolding after_response_def by (rule response_reachable)

lemma first_action_reachable:
  assumes "map_option pid (fst (currentPlayer (GameEngine ps tape))) = Some aid"
  shows "reachable (snd (resolveAction (snd (currentPlayer (GameEngine ps tape))) aid ty tid))"
proof -
  let ?g = "GameEngine ps tape"
  from assms obtain cur where c: "fst (currentPlayer ?g) = Some cur" and p: "pid cur = aid" by auto
  have e: "currentPlayer ?g = (Some cur, snd (currentPlayer ?g))" using c by (simp add: prod_eq_iff)
  have n: "pendingAction (snd (currentPlayer ?g)) = None" by (simp add: GameEngine_frame)
  show ?thesis by (rule reachable.action[OF reachable.start e p n])
qed

lemma demo_blank_reachable: "reachable demo_blank_tax" "reachable demo_blank_challenged"
proof -
  have "map_option pid (fst (currentPlayer demo_blank)) = Some ''b''" by code_simp
  then show t: "reachable demo_blank_tax"
    unfolding demo_blank_tax_def demo_blank_def by (rule first_action_reachable)
  show "reachable demo_blank_challenged"
    unfolding demo_blank_challenged_def using t by (rule after_response_reachable)
qed

lemma demo_three_reachable:
  "reachable demo_three_tax" "reachable demo_three_marked" "reachable demo_three_later"
  "reachable demo_three_aid" "reachable demo_three_block" "reachable demo_three_block_challenged"
  "reachable demo_three_actor_passed" "reachable demo_three_aid_end"
proof -
  have c: "map_option pid (fst (currentPlayer demo_three)) = Some ''a''" by code_simp
  from c show t: "reachable demo_three_tax"
    unfolding demo_three_tax_def demo_three_def by (rule first_action_reachable)
  from t show m: "reachable demo_three_marked"
    unfolding demo_three_marked_def by (rule after_response_reachable)
  from m show "reachable demo_three_later"
    unfolding demo_three_later_def by (rule after_response_reachable)
  from c show a: "reachable demo_three_aid"
    unfolding demo_three_aid_def demo_three_def by (rule first_action_reachable)
  from a show b: "reachable demo_three_block"
    unfolding demo_three_block_def by (rule after_response_reachable)
  from b show bc: "reachable demo_three_block_challenged"
    unfolding demo_three_block_challenged_def by (rule after_response_reachable)
  from bc show ap: "reachable demo_three_actor_passed"
    unfolding demo_three_actor_passed_def by (rule after_response_reachable)
  from ap show "reachable demo_three_aid_end"
    unfolding demo_three_aid_end_def by (rule after_response_reachable)
qed

text \<open>
  C3. A challenge against a claim that is true should reveal and replace the actor's card
  and force the challenger to lose an influence. The resolver does neither when the
  challenger's identifier is the empty string, which the server takes from a join message
  as any other: it finds the challenger with \<open>firstChallenger\<close> and tests the identifier
  found by \<open>if (challengerId)\<close>, which the empty string fails. In the game of Bob
  (\<open>b\<close>) and a player whose identifier is empty, Bob is the first to play and claims the
  Duke for a tax, holding one face down; the other player, the only one listed in the
  responders object, challenges. \<open>handleResponse\<close> returns without throwing, and in the
  state it returns every player has the cards of before (Bob's Duke is not revealed and no
  card is drawn, the deck being as before) and the action pending is still the tax at its
  challenge stage, the responder marked \<open>challenged\<close>: no LoseInfluence is addressed to the
  challenger.
\<close>

theorem challenge_by_empty_id_not_resolved:
  "map pid (players demo_blank) = [''b'', '''']
   \<and> map_option pid (fst (currentPlayer demo_blank)) = Some ''b''
   \<and> pending_view demo_blank_tax
        = Some (TaxT, AwaitingChallenge, Some ''b'', Some ''Duke'', None, [('''', Pending)])
   \<and> hand_of demo_blank_tax (Some ''b'')
        = Some [\<lparr>role = ''Duke'', revealed = False\<rparr>, \<lparr>role = ''Contessa'', revealed = False\<rparr>]
   \<and> playerHasRole demo_blank_tax (Some ''b'') ''Duke''
   \<and> (case handleResponse demo_blank_tax '''' ''challenge'' no_payload of
         Inl e \<Rightarrow> False
       | Inr (out, g') \<Rightarrow>
           players g' = players demo_blank_tax \<and> deck g' = deck demo_blank_tax
         \<and> pending_view g'
             = Some (TaxT, AwaitingChallenge, Some ''b'', Some ''Duke'', None, [('''', Challenged)]))"
  by code_simp

text \<open>
  C5. The actor of a foreign aid should keep the two coins when the block is challenged and
  the blocker holds no Duke. The resolver takes them back when the challenger of the block
  has the empty string as identifier, the challenge being recorded and never resolved
  (\<open>if (challengerId)\<close> fails for the empty string). In the game of Ann (\<open>a\<close>), Bob
  (\<open>b\<close>) and a player whose identifier is empty, Ann takes foreign aid (2 coins become 4), Bob blocks claiming a Duke
  that he does not hold, and the third player challenges the block. The call returns with
  the block still pending, the challenger marked \<open>challenged\<close> and nothing resolved; when
  Ann and then the challenger pass, the block stands: Ann is back at 2 coins, no action is
  pending, nobody has revealed a card and the log ends with the block and Bob's turn.
\<close>

theorem foreign_aid_lost_to_false_block:
  "map pid (players demo_three) = [''a'', ''b'', '''']
   \<and> map_option pid (fst (currentPlayer demo_three)) = Some ''a''
   \<and> coins_of demo_three (Some ''a'') = Some 2
   \<and> coins_of demo_three_aid (Some ''a'') = Some 4
   \<and> pending_view demo_three_aid
        = Some (ForeignAidT, AwaitingBlock, Some ''a'', None, None, [(''b'', Pending), ('''', Pending)])
   \<and> \<not> threw (handleResponse demo_three_aid ''b'' ''block''
                 \<lparr>p_role = Some ''Duke'', p_cardIndex = None, p_keep = None\<rparr>)
   \<and> pending_view demo_three_block
        = Some (ForeignAidT, AwaitingChallengeBlock, Some ''a'', None, Some ''b'',
                [(''a'', Pending), ('''', Pending)])
   \<and> \<not> playerHasRole demo_three_block (Some ''b'') ''Duke''
   \<and> \<not> threw (handleResponse demo_three_block '''' ''challenge'' no_payload)
   \<and> pending_view demo_three_block_challenged
        = Some (ForeignAidT, AwaitingChallengeBlock, Some ''a'', None, Some ''b'',
                [(''a'', Pending), ('''', Challenged)])
   \<and> coins_of demo_three_block_challenged (Some ''a'') = Some 4
   \<and> \<not> threw (handleResponse demo_three_block_challenged ''a'' ''pass'' no_payload)
   \<and> \<not> threw (handleResponse demo_three_actor_passed '''' ''pass'' no_payload)
   \<and> pendingAction demo_three_aid_end = None
   \<and> coins_of demo_three_aid_end (Some ''a'') = Some 2
   \<and> revealed_roles demo_three_aid_end = []
   \<and> drop (length (log demo_three_aid_end) - 2) (log demo_three_aid_end)
        = [''Foreign Aid is blocked.'', ''It is now Bob'' @ [CHR 0x27] @ ''s turn.'']"
  by code_simp

text \<open>
  C10. No state that the resolver returns should have a responder marked \<open>challenged\<close>,
  a challenge being resolved by the call that records it. The resolver returns such a
  state when the challenger has the empty string as identifier (\<open>if (challengerId)\<close>
  fails for it). In the game of Ann (\<open>a\<close>), Bob (\<open>b\<close>) and a player whose identifier is
  empty, Ann claims the Duke for a tax and the third player challenges: the state that
  \<open>handleResponse\<close> returns has the tax pending at its challenge stage with the responder
  marked \<open>challenged\<close>, and the state returned by the next call, Bob passing, has the mark
  still.
\<close>

theorem challenge_mark_persists:
  "map pid (players demo_three) = [''a'', ''b'', '''']
   \<and> map_option pid (fst (currentPlayer demo_three)) = Some ''a''
   \<and> pending_view demo_three_tax
        = Some (TaxT, AwaitingChallenge, Some ''a'', Some ''Duke'', None,
                [(''b'', Pending), ('''', Pending)])
   \<and> (case handleResponse demo_three_tax '''' ''challenge'' no_payload of
         Inl e \<Rightarrow> False
       | Inr (out, g') \<Rightarrow>
           pending_view g'
             = Some (TaxT, AwaitingChallenge, Some ''a'', Some ''Duke'', None,
                     [(''b'', Pending), ('''', Challenged)]))
   \<and> (case handleResponse demo_three_marked ''b'' ''pass'' no_payload of
         Inl e \<Rightarrow> False
       | Inr (out, g') \<Rightarrow>
           pending_view g'
             = Some (TaxT, AwaitingChallenge, Some ''a'', Some ''Duke'', None,
                     [(''b'', Passed), ('''', Challenged)]))"
  by code_simp

end
